theory Spec2Isabelle
  imports Complex_Main "HOL-Library.AList" "HOL-Library.Product_Lexorder"
begin

section \<open>The graph model (networkx.Graph as the scripts use it)\<close>

text \<open>
  The scripts keep the network in a \<^verbatim>\<open>networkx.Graph\<close>: a dict from node to a dict from
  neighbour to the edge's data dict. Python dicts iterate in insertion order, and the
  builders depend on that order (\<^verbatim>\<open>max\<close> returns the first maximal element, the
  breadth-first search visits neighbours in adjacency order), so the graph is an
  association list of association lists. Of the edge's data dict only the key
  \<^verbatim>\<open>'capacity'\<close> is ever read: \<open>None\<close> is an edge without that key.
\<close>

type_synonym attrs = "real option"

type_synonym 'a graph = "('a \<times> ('a \<times> attrs) list) list"

datatype error =
    ValueError           \<comment> \<open>\<^verbatim>\<open>max()\<close> of an empty sequence\<close>
  | KeyError             \<comment> \<open>a dict read at a missing key\<close>
  | HyperedgeTooLarge int int
      \<comment> \<open>\<^verbatim>\<open>RuntimeError("Refusing to export clique: ... %d > ... %d")\<close>: size, threshold\<close>

definition nodes :: "'a graph \<Rightarrow> 'a list" where
  "nodes G = map fst G"

definition number_of_nodes :: "'a graph \<Rightarrow> nat" where
  "number_of_nodes G = length G"

definition adj_of :: "'a graph \<Rightarrow> 'a \<Rightarrow> ('a \<times> attrs) list" where
  "adj_of G u = (case map_of G u of None \<Rightarrow> [] | Some nbrs \<Rightarrow> nbrs)"

text \<open>\<^verbatim>\<open>G.neighbors(u)\<close>, for a node \<open>u\<close> of the graph (every call site passes one).\<close>

definition neighbors :: "'a graph \<Rightarrow> 'a \<Rightarrow> 'a list" where
  "neighbors G u = map fst (adj_of G u)"

text \<open>\<^verbatim>\<open>G.degree(n)\<close>: the number of neighbours, a self-loop counted twice.\<close>

definition degree :: "'a graph \<Rightarrow> 'a \<Rightarrow> nat" where
  "degree G n = length (adj_of G n) + (if n \<in> set (neighbors G n) then 1 else 0)"

text \<open>\<^verbatim>\<open>G.degree()\<close>: the pairs (node, degree) in node order.\<close>

definition degree_view :: "'a graph \<Rightarrow> ('a \<times> nat) list" where
  "degree_view G = map (\<lambda>n. (n, degree G n)) (nodes G)"

text \<open>\<^verbatim>\<open>G.number_of_edges()\<close>: half the sum of the degrees.\<close>

definition number_of_edges :: "'a graph \<Rightarrow> nat" where
  "number_of_edges G = sum_list (map snd (degree_view G)) div 2"

definition add_node :: "'a \<Rightarrow> 'a graph \<Rightarrow> 'a graph" where
  "add_node n G = (if n \<in> set (nodes G) then G else G @ [(n, [])])"

text \<open>
  \<^verbatim>\<open>G.add_edge(u, v, **attr)\<close>: both endpoints are created when missing, the data dict
  already stored for the edge is updated with the new attributes, and it is stored under
  \<^verbatim>\<open>adj[u][v]\<close> and \<^verbatim>\<open>adj[v][u]\<close>. Assigning to a key a dict already holds keeps the key's
  position. Nothing rejects \<open>u = v\<close>.
\<close>

definition add_edge :: "'a \<Rightarrow> 'a \<Rightarrow> attrs \<Rightarrow> 'a graph \<Rightarrow> 'a graph" where
  "add_edge u v attr G =
     (let G1 = add_node v (add_node u G);
          datadict = (case attr of
                        Some c \<Rightarrow> Some c
                      | None \<Rightarrow> (case map_of (adj_of G1 u) v of None \<Rightarrow> None | Some old \<Rightarrow> old))
      in AList.map_entry v (AList.update u datadict)
           (AList.map_entry u (AList.update v datadict) G1))"

text \<open>
  \<^verbatim>\<open>G.remove_node(n)\<close>: \<open>n\<close> is deleted from the adjacency of each of its neighbours,
  then its own entry is deleted. \<^verbatim>\<open>remove_nodes_from\<close> does the same for each node of
  its argument and skips a node that is not in the graph.
\<close>

definition remove_node :: "'a \<Rightarrow> 'a graph \<Rightarrow> 'a graph" where
  "remove_node n G =
     AList.delete n (foldl (\<lambda>H u. AList.map_entry u (AList.delete n) H) G (neighbors G n))"

definition remove_nodes_from :: "'a graph \<Rightarrow> 'a list \<Rightarrow> 'a graph" where
  "remove_nodes_from G ns = foldl (\<lambda>H n. remove_node n H) G ns"

text \<open>
  \<^verbatim>\<open>G.remove_edges_from(ebunch)\<close>: a pair that is not an edge is skipped.
\<close>

definition remove_edge :: "'a graph \<Rightarrow> 'a \<times> 'a \<Rightarrow> 'a graph" where
  "remove_edge G e =
     (case e of (u, v) \<Rightarrow>
        if v \<in> set (neighbors G u)
        then AList.map_entry v (AList.delete u) (AList.map_entry u (AList.delete v) G)
        else G)"

definition remove_edges_from :: "'a graph \<Rightarrow> ('a \<times> 'a) list \<Rightarrow> 'a graph" where
  "remove_edges_from G ebunch = foldl remove_edge G ebunch"

text \<open>
  \<^verbatim>\<open>G.copy()\<close>: a new graph that receives the nodes in node order and then every
  adjacency entry \<^verbatim>\<open>(u, v, data)\<close>, for \<open>u\<close> in node order and \<open>v\<close> in the order of
  \<^verbatim>\<open>adj[u]\<close>, through \<^verbatim>\<open>add_edge\<close>.
\<close>

definition adj_entries :: "'a graph \<Rightarrow> ('a \<times> 'a \<times> attrs) list" where
  "adj_entries G = concat (map (\<lambda>(u, nbrs). map (\<lambda>(v, d). (u, v, d)) nbrs) G)"

definition graph_copy :: "'a graph \<Rightarrow> 'a graph" where
  "graph_copy G =
     foldl (\<lambda>H (u, v, d). add_edge u v d H) (foldl (\<lambda>H n. add_node n H) [] (nodes G))
       (adj_entries G)"

text \<open>
  \<^verbatim>\<open>edges_df_to_nx\<close> (topologies/utils.py): one \<^verbatim>\<open>add_edge(src, trg)\<close> per row of the
  edge table, without attributes.
\<close>

definition edges_df_to_nx :: "('a \<times> 'a) list \<Rightarrow> 'a graph" where
  "edges_df_to_nx edges_df = foldl (\<lambda>G (src, trg). add_edge src trg None G) [] edges_df"

text \<open>
  The graphs networkx builds: node keys are distinct, each adjacency has distinct keys,
  and \<open>v\<close> is in the adjacency of \<open>u\<close> exactly when \<open>u\<close> is in that of \<open>v\<close>.
\<close>

definition wf_graph :: "'a graph \<Rightarrow> bool" where
  "wf_graph G =
     (distinct (nodes G) \<and>
      list_all (\<lambda>(u, nbrs). distinct (map fst nbrs) \<and>
                  list_all (\<lambda>(v, d). u \<in> set (neighbors G v)) nbrs) G)"

definition no_self_loops :: "'a graph \<Rightarrow> bool" where
  "no_self_loops G = list_all (\<lambda>(u, nbrs). u \<notin> set (map fst nbrs)) G"

text \<open>
  Python's \<^verbatim>\<open>max(xs, key=key)\<close>: the first element whose key no later element exceeds;
  \<^verbatim>\<open>ValueError\<close> on an empty sequence.
\<close>

fun py_max :: "('b \<Rightarrow> 'k::linorder) \<Rightarrow> 'b list \<Rightarrow> error + 'b" where
  "py_max key [] = Inl ValueError"
| "py_max key (x # xs) = Inr (foldl (\<lambda>best y. if key best < key y then y else best) x xs)"

section \<open>NCH: greedy vertex cover (topologies/nch.py)\<close>

text \<open>\<^verbatim>\<open>cover.add(node)\<close> on the set \<^verbatim>\<open>cover\<close>, kept as a list without repetition.\<close>

definition set_add :: "'a \<Rightarrow> 'a list \<Rightarrow> 'a list" where
  "set_add x xs = (if x \<in> set xs then xs else xs @ [x])"

lemma nodes_map_entry [simp]: "nodes (AList.map_entry k f G) = nodes G"
  unfolding nodes_def by (induction G) auto

lemma length_map_entry [simp]: "length (AList.map_entry k f G) = length G"
  by (induction G) auto

lemma nodes_foldl_map_entry [simp]:
  "nodes (foldl (\<lambda>H u. AList.map_entry u (f u) H) G us) = nodes G"
  by (induction us arbitrary: G) auto

lemma length_foldl_map_entry [simp]:
  "length (foldl (\<lambda>H u. AList.map_entry u (f u) H) G us) = length G"
  by (induction us arbitrary: G) auto

lemma nodes_delete: "nodes (AList.delete n G) = removeAll n (nodes G)"
  unfolding nodes_def by (induction G) auto

lemma length_delete_less:
  "n \<in> set (nodes G) \<Longrightarrow> length (AList.delete n G) < length G"
  unfolding nodes_def AList.delete_eq
  by (auto intro: length_filter_less)

lemma nodes_remove_node: "nodes (remove_node n G) = removeAll n (nodes G)"
  by (simp add: remove_node_def nodes_delete)

lemma length_remove_node_less:
  "n \<in> set (nodes G) \<Longrightarrow> length (remove_node n G) < length G"
proof -
  assume a: "n \<in> set (nodes G)"
  let ?H = "foldl (\<lambda>H u. AList.map_entry u (AList.delete n) H) G (neighbors G n)"
  have "n \<in> set (nodes ?H)" using a by simp
  then have "length (AList.delete n ?H) < length ?H" by (rule length_delete_less)
  then show ?thesis by (simp add: remove_node_def)
qed

lemma foldl_max_in: "foldl (\<lambda>best y. if key best < key y then y else best) x xs \<in> set (x # xs)"
  by (induction xs arbitrary: x) auto

lemma py_max_in: "py_max key xs = Inr b \<Longrightarrow> b \<in> set xs"
  using foldl_max_in [of key] by (cases xs) auto

text \<open>
  \<^verbatim>\<open>greedy_vertex_cover(G, max_nodes)\<close>. The loop runs on the copy \<^verbatim>\<open>H\<close>; each round
  deletes a node of \<^verbatim>\<open>H\<close>, which is why it ends.
\<close>

function gvc_loop :: "int option \<Rightarrow> 'a graph \<Rightarrow> 'a list \<Rightarrow> error + 'a list" where
  "gvc_loop max_nodes H cover =
     (if number_of_edges H > 0 then
        (case py_max snd (degree_view H) of
           Inl e \<Rightarrow> Inl e
         | Inr (node, deg) \<Rightarrow>
             let cover' = set_add node cover;
                 H' = remove_node node H
             in if (case max_nodes of None \<Rightarrow> False | Some k \<Rightarrow> int (length cover') \<ge> k)
                then Inr cover'
                else gvc_loop max_nodes H' cover')
      else Inr cover)"
  by pat_completeness auto
termination
proof (relation "measure (\<lambda>(max_nodes, H, cover). length H)")
  show "wf (measure (\<lambda>(max_nodes, H, cover). length H))" by simp
next
  fix max_nodes :: "int option" and H :: "'a graph" and cover :: "'a list"
    and x2 :: "'a \<times> nat" and x y xa xb
  assume "py_max snd (degree_view H) = Inr x2" and "(x, y) = x2"
    and "xb = remove_node x H"
  then have "(x, y) \<in> set (degree_view H)" using py_max_in by metis
  then have "x \<in> set (nodes H)" by (auto simp: degree_view_def)
  then have "length (remove_node x H) < length H" by (rule length_remove_node_less)
  then show "((max_nodes, xb, xa), max_nodes, H, cover) \<in> measure (\<lambda>(max_nodes, H, cover). length H)"
    using \<open>xb = remove_node x H\<close> by simp
qed

definition greedy_vertex_cover :: "'a graph \<Rightarrow> int option \<Rightarrow> error + 'a list" where
  "greedy_vertex_cover G max_nodes = gvc_loop max_nodes (graph_copy G) []"

subsection \<open>Facts about the graph operations\<close>

lemma adj_of_map_entry:
  "adj_of (AList.map_entry k f G) w =
     (if w = k then (case map_of G k of None \<Rightarrow> [] | Some nbrs \<Rightarrow> f nbrs) else adj_of G w)"
  by (simp add: adj_of_def map_of_map_entry split: option.splits)

lemma adj_of_map_entry_delete:
  "adj_of (AList.map_entry k (AList.delete n) G) w =
     (if w = k then AList.delete n (adj_of G w) else adj_of G w)"
  by (simp add: adj_of_def map_of_map_entry split: option.splits)

lemma adj_of_delete: "adj_of (AList.delete n G) w = (if w = n then [] else adj_of G w)"
  by (simp add: adj_of_def delete_conv')

lemma map_fst_delete: "map fst (AList.delete n xs) = removeAll n (map fst xs)"
  by (induction xs) auto

lemma adj_of_foldl_delete:
  "adj_of (foldl (\<lambda>H u. AList.map_entry u (AList.delete n) H) G us) w =
     (if w \<in> set us then AList.delete n (adj_of G w) else adj_of G w)"
  by (induction us arbitrary: G) (auto simp: adj_of_map_entry_delete delete_idem)

lemma neighbors_remove_node:
  "neighbors (remove_node n G) w =
     (if w = n then []
      else if w \<in> set (neighbors G n) then removeAll n (neighbors G w) else neighbors G w)"
  by (simp add: neighbors_def remove_node_def adj_of_delete adj_of_foldl_delete map_fst_delete)

lemma wf_graph_iff:
  "wf_graph G \<longleftrightarrow>
     distinct (nodes G) \<and> (\<forall>u. distinct (neighbors G u)) \<and>
     (\<forall>u v. v \<in> set (neighbors G u) \<longrightarrow> u \<in> set (neighbors G v))"
  (is "?L \<longleftrightarrow> ?R")
proof
  assume L: ?L
  then have d: "distinct (map fst G)" by (simp add: wf_graph_def nodes_def)
  have e: "\<And>u nbrs. (u, nbrs) \<in> set G \<Longrightarrow>
      distinct (map fst nbrs) \<and> (\<forall>(v, d) \<in> set nbrs. u \<in> set (neighbors G v))"
    using L by (auto simp: wf_graph_def list_all_iff)
  have a: "\<And>u. adj_of G u \<noteq> [] \<Longrightarrow> (u, adj_of G u) \<in> set G"
    by (auto simp: adj_of_def split: option.splits dest: map_of_SomeD)
  have "\<And>u. distinct (neighbors G u)"
  proof -
    fix u show "distinct (neighbors G u)"
      using a [of u] e [of u "adj_of G u"] by (cases "adj_of G u = []") (auto simp: neighbors_def)
  qed
  moreover have "\<And>u v. v \<in> set (neighbors G u) \<Longrightarrow> u \<in> set (neighbors G v)"
  proof -
    fix u v assume "v \<in> set (neighbors G u)"
    then have ne: "adj_of G u \<noteq> []" and "v \<in> fst ` set (adj_of G u)"
      by (auto simp: neighbors_def)
    then show "u \<in> set (neighbors G v)" using a [OF ne] e [of u "adj_of G u"] by auto
  qed
  ultimately show ?R using L by (auto simp: wf_graph_def)
next
  assume R: ?R
  then have d: "distinct (map fst G)" by (simp add: nodes_def)
  have "\<And>u nbrs. (u, nbrs) \<in> set G \<Longrightarrow> adj_of G u = nbrs"
    using d by (simp add: adj_of_def)
  then show ?L using R
    by (fastforce simp: wf_graph_def list_all_iff neighbors_def)
qed

lemma neighbors_in_nodes: "v \<in> set (neighbors G u) \<Longrightarrow> u \<in> set (nodes G)"
proof -
  assume "v \<in> set (neighbors G u)"
  then obtain nbrs where "map_of G u = Some nbrs"
    by (cases "map_of G u") (auto simp: neighbors_def adj_of_def)
  then have "(u, nbrs) \<in> set G" by (rule map_of_SomeD)
  then show ?thesis by (force simp: nodes_def)
qed

lemma set_neighbors_remove_node:
  assumes "wf_graph G"
  shows "set (neighbors (remove_node n G) w) = (if w = n then {} else set (neighbors G w) - {n})"
proof -
  have "w \<notin> set (neighbors G n) \<Longrightarrow> n \<notin> set (neighbors G w)"
    using assms by (auto simp: wf_graph_iff)
  then show ?thesis by (auto simp: neighbors_remove_node)
qed

lemma wf_remove_node:
  assumes "wf_graph G"
  shows "wf_graph (remove_node n G)"
proof -
  have "distinct (nodes (remove_node n G))"
    using assms by (simp add: nodes_remove_node wf_graph_iff distinct_removeAll)
  moreover have "\<And>u. distinct (neighbors (remove_node n G) u)"
    using assms by (simp add: neighbors_remove_node wf_graph_iff distinct_removeAll)
  moreover have "\<And>u v. v \<in> set (neighbors (remove_node n G) u) \<Longrightarrow>
      u \<in> set (neighbors (remove_node n G) v)"
    using assms by (auto simp: set_neighbors_remove_node wf_graph_iff split: if_splits)
  ultimately show ?thesis by (simp add: wf_graph_iff)
qed

lemma sum_list_two_le:
  fixes f :: "'a \<Rightarrow> nat"
  assumes "distinct xs" "u \<in> set xs" "v \<in> set xs" "u \<noteq> v"
  shows "f u + f v \<le> sum_list (map f xs)"
proof -
  have "sum_list (map f xs) = sum f (set xs)"
    using assms(1) by (simp add: sum_list_distinct_conv_sum_set)
  moreover have "sum f {u, v} \<le> sum f (set xs)"
    using assms by (intro sum_mono2) auto
  moreover have "sum f {u, v} = f u + f v" using assms(4) by simp
  ultimately show ?thesis by simp
qed

lemma number_of_edges_pos:
  assumes "wf_graph G" "v \<in> set (neighbors G u)"
  shows "number_of_edges G > 0"
proof -
  have d: "distinct (nodes G)" using assms(1) by (simp add: wf_graph_iff)
  have vu: "u \<in> set (neighbors G v)" using assms by (auto simp: wf_graph_iff)
  have un: "u \<in> set (nodes G)" and vn: "v \<in> set (nodes G)"
    using assms(2) vu by (auto dest: neighbors_in_nodes)
  have s: "sum_list (map snd (degree_view G)) = sum_list (map (degree G) (nodes G))"
    by (simp add: degree_view_def comp_def)
  have "2 \<le> sum_list (map (degree G) (nodes G))"
  proof (cases "u = v")
    case True
    then have "2 \<le> degree G u" using assms(2) by (auto simp: degree_def neighbors_def Suc_le_eq)
    moreover have "degree G u \<le> sum_list (map (degree G) (nodes G))"
      using un by (simp add: member_le_sum_list)
    ultimately show ?thesis by simp
  next
    case False
    have "1 \<le> degree G u" "1 \<le> degree G v"
      using assms(2) vu by (auto simp: degree_def neighbors_def Suc_le_eq)
    moreover have "degree G u + degree G v \<le> sum_list (map (degree G) (nodes G))"
      using d un vn False by (rule sum_list_two_le)
    ultimately show ?thesis by simp
  qed
  then show ?thesis by (simp add: number_of_edges_def s)
qed

lemma neighbors_Nil [simp]: "neighbors [] w = []"
  by (simp add: neighbors_def adj_of_def)

lemma adj_of_add_node [simp]: "adj_of (add_node n G) w = adj_of G w"
proof (cases "n \<in> set (nodes G)")
  case True then show ?thesis by (simp add: add_node_def)
next
  case False
  then have "map_of G n = None" by (simp add: nodes_def map_of_eq_None_iff)
  then show ?thesis using False
    by (cases "map_of G w") (auto simp: add_node_def adj_of_def map_add_def)
qed

lemma neighbors_add_node [simp]: "neighbors (add_node n G) w = neighbors G w"
  by (simp add: neighbors_def)

lemma set_nodes_add_node [simp]: "set (nodes (add_node n G)) = insert n (set (nodes G))"
  by (auto simp: add_node_def nodes_def)

lemma distinct_nodes_add_node: "distinct (nodes G) \<Longrightarrow> distinct (nodes (add_node n G))"
  by (auto simp: add_node_def nodes_def)

lemma nodes_add_node_mem: "n \<in> set (nodes G) \<Longrightarrow> add_node n G = G"
  by (simp add: add_node_def)

lemma adj_of_map_entry_mem:
  "k \<in> set (nodes G) \<Longrightarrow>
   adj_of (AList.map_entry k f G) w = (if w = k then f (adj_of G k) else adj_of G w)"
proof -
  assume "k \<in> set (nodes G)"
  then obtain nbrs where "map_of G k = Some nbrs"
    by (cases "map_of G k") (auto simp: nodes_def map_of_eq_None_iff)
  then show ?thesis by (simp add: adj_of_map_entry) (simp add: adj_of_def)
qed

lemma nodes_add_edge: "nodes (add_edge u v d G) = nodes (add_node v (add_node u G))"
  by (simp add: add_edge_def Let_def)

lemma set_neighbors_add_edge:
  "set (neighbors (add_edge u v d G) w) =
     set (neighbors G w) \<union> (if w = u then {v} else {}) \<union> (if w = v then {u} else {})"
  by (auto simp: add_edge_def Let_def neighbors_def adj_of_map_entry_mem dom_update)

lemma distinct_neighbors_add_edge:
  "distinct (neighbors G w) \<Longrightarrow> distinct (neighbors (add_edge u v d G) w)"
  by (auto simp: add_edge_def Let_def neighbors_def adj_of_map_entry_mem distinct_update)

lemma foldl_add_edge_props:
  "set (neighbors (foldl (\<lambda>H (u, v, d). add_edge u v d H) H es) w) =
     set (neighbors H w) \<union> {v. \<exists>d. (w, v, d) \<in> set es} \<union> {u. \<exists>d. (u, w, d) \<in> set es}"
  "distinct (neighbors H w) \<Longrightarrow>
     distinct (neighbors (foldl (\<lambda>H (u, v, d). add_edge u v d H) H es) w)"
  "distinct (nodes H) \<Longrightarrow> distinct (nodes (foldl (\<lambda>H (u, v, d). add_edge u v d H) H es))"
  "(\<forall>(u, v, d) \<in> set es. u \<in> set (nodes H) \<and> v \<in> set (nodes H)) \<Longrightarrow>
     nodes (foldl (\<lambda>H (u, v, d). add_edge u v d H) H es) = nodes H"
proof (induction es arbitrary: H)
  case Nil
  { case 1 show ?case by simp }
  { case 2 then show ?case by simp }
  { case 3 then show ?case by simp }
  { case 4 then show ?case by simp }
next
  case (Cons e es)
  obtain u v d where e: "e = (u, v, d)" by (cases e)
  { case 1 show ?case
      unfolding e using Cons.IH(1) [of "add_edge u v d H"]
      by (auto simp: set_neighbors_add_edge split: if_splits) }
  { case 2 then show ?case
      unfolding e using Cons.IH(2) [of "add_edge u v d H"]
      by (simp add: distinct_neighbors_add_edge) }
  { case 3 then show ?case
      unfolding e using Cons.IH(3) [of "add_edge u v d H"]
      by (simp add: nodes_add_edge distinct_nodes_add_node) }
  { case 4
    then have uv: "u \<in> set (nodes H)" "v \<in> set (nodes H)" unfolding e by auto
    then have n: "nodes (add_edge u v d H) = nodes H"
      by (simp add: nodes_add_edge nodes_add_node_mem)
    then show ?case
      unfolding e using Cons.IH(4) [of "add_edge u v d H"] 4 by (simp add: e) }
qed

lemma foldl_add_node_nodes:
  "distinct (ns' @ ns) \<Longrightarrow> nodes H = ns' \<Longrightarrow> nodes (foldl (\<lambda>H n. add_node n H) H ns) = ns' @ ns"
proof (induction ns arbitrary: H ns')
  case Nil then show ?case by simp
next
  case (Cons n ns)
  have "nodes (add_node n H) = ns' @ [n]"
    using Cons.prems by (auto simp: add_node_def nodes_def)
  then show ?case using Cons.IH [of "ns' @ [n]" "add_node n H"] Cons.prems by simp
qed

lemma foldl_add_node_neighbors [simp]:
  "neighbors (foldl (\<lambda>H n. add_node n H) H ns) w = neighbors H w"
  by (induction ns arbitrary: H) auto

lemma adj_entries_mem:
  "distinct (nodes G) \<Longrightarrow> (u, v, d) \<in> set (adj_entries G) \<longleftrightarrow> (v, d) \<in> set (adj_of G u)"
proof -
  assume d: "distinct (nodes G)"
  have m: "\<And>nbrs. (u, nbrs) \<in> set G \<longleftrightarrow> map_of G u = Some nbrs"
    using d by (auto simp: nodes_def)
  have "(u, v, d) \<in> set (adj_entries G) \<longleftrightarrow> (\<exists>nbrs. (u, nbrs) \<in> set G \<and> (v, d) \<in> set nbrs)"
    by (force simp: adj_entries_def)
  then show ?thesis unfolding m
    by (cases "map_of G u") (auto simp: adj_of_def)
qed

lemma graph_copy_props:
  assumes "wf_graph G"
  shows "wf_graph (graph_copy G)"
    and "nodes (graph_copy G) = nodes G"
    and "set (neighbors (graph_copy G) w) = set (neighbors G w)"
proof -
  let ?H0 = "foldl (\<lambda>H n. add_node n H) [] (nodes G)"
  have d: "distinct (nodes G)"
    and sym: "\<And>u v. v \<in> set (neighbors G u) \<Longrightarrow> u \<in> set (neighbors G v)"
    using assms by (auto simp: wf_graph_iff)
  have n0: "nodes ?H0 = nodes G"
    using foldl_add_node_nodes [of "[]" "nodes G" "[]"] d by (simp add: nodes_def)
  have nb0: "\<And>w. neighbors ?H0 w = []" by simp
  have ent: "\<And>u v. (\<exists>d. (u, v, d) \<in> set (adj_entries G)) \<longleftrightarrow> v \<in> set (neighbors G u)"
    using d by (force simp: adj_entries_mem neighbors_def)
  have nb: "\<And>w. set (neighbors (graph_copy G) w) = set (neighbors G w)"
    unfolding graph_copy_def foldl_add_edge_props(1) nb0 using ent sym by auto
  show "set (neighbors (graph_copy G) w) = set (neighbors G w)" by (rule nb)
  have "\<forall>(u, v, d) \<in> set (adj_entries G). u \<in> set (nodes ?H0) \<and> v \<in> set (nodes ?H0)"
  proof (clarify)
    fix u v dd assume "(u, v, dd) \<in> set (adj_entries G)"
    then have "v \<in> set (neighbors G u)" using ent by blast
    then show "u \<in> set (nodes ?H0) \<and> v \<in> set (nodes ?H0)"
      unfolding n0 using sym neighbors_in_nodes by metis
  qed
  then show nn: "nodes (graph_copy G) = nodes G"
    unfolding graph_copy_def using foldl_add_edge_props(4) [of "adj_entries G" ?H0] n0 by simp
  have "\<And>w. distinct (neighbors (graph_copy G) w)"
    unfolding graph_copy_def by (rule foldl_add_edge_props(2)) simp
  then show "wf_graph (graph_copy G)"
    using nn d nb sym by (simp add: wf_graph_iff)
qed

subsection \<open>The greedy cover covers every edge\<close>

lemma py_max_Inr: "xs \<noteq> [] \<Longrightarrow> \<exists>b. py_max key xs = Inr b"
  by (cases xs) auto

lemma number_of_edges_pos_nodes: "number_of_edges G > 0 \<Longrightarrow> degree_view G \<noteq> []"
  by (auto simp: number_of_edges_def)

lemma set_add_set [simp]: "set (set_add x xs) = insert x (set xs)"
  by (auto simp: set_add_def)

lemma gvc_loop_cover:
  "max_nodes = None \<Longrightarrow> wf_graph H \<Longrightarrow>
   \<exists>cover'. gvc_loop max_nodes H cover = Inr cover' \<and> set cover \<subseteq> set cover' \<and>
     (\<forall>u v. v \<in> set (neighbors H u) \<longrightarrow> u \<in> set cover' \<or> v \<in> set cover')"
proof (induction max_nodes H cover rule: gvc_loop.induct)
  case (1 max_nodes H cover)
  show ?case
  proof (cases "number_of_edges H > 0")
    case False
    then have "\<And>u v. v \<notin> set (neighbors H u)"
      using number_of_edges_pos [OF "1.prems"(2)] by auto
    then show ?thesis using False by (subst gvc_loop.simps) simp
  next
    case True
    then obtain b where b: "py_max snd (degree_view H) = Inr b"
      using py_max_Inr number_of_edges_pos_nodes by blast
    obtain node deg where nd: "b = (node, deg)" by (cases b)
    let ?c = "set_add node cover" and ?H = "remove_node node H"
    have wf': "wf_graph ?H" using "1.prems"(2) by (rule wf_remove_node)
    from "1.IH" [OF True b nd [symmetric] refl refl _ "1.prems"(1) wf'] "1.prems"(1)
    obtain cover' where c: "gvc_loop max_nodes ?H ?c = Inr cover'" "set ?c \<subseteq> set cover'"
      "\<forall>u v. v \<in> set (neighbors ?H u) \<longrightarrow> u \<in> set cover' \<or> v \<in> set cover'"
      by auto
    have eq: "gvc_loop max_nodes H cover = Inr cover'"
      using True b nd c(1) "1.prems"(1) by (subst gvc_loop.simps) (simp add: Let_def)
    have "\<And>u v. v \<in> set (neighbors H u) \<Longrightarrow> u \<in> set cover' \<or> v \<in> set cover'"
    proof -
      fix u v assume uv: "v \<in> set (neighbors H u)"
      show "u \<in> set cover' \<or> v \<in> set cover'"
      proof (cases "u = node \<or> v = node")
        case True then show ?thesis using c(2) by auto
      next
        case False
        then have "v \<in> set (neighbors ?H u)"
          using uv by (simp add: set_neighbors_remove_node [OF "1.prems"(2)])
        then show ?thesis using c(3) by blast
      qed
    qed
    then show ?thesis using eq c(2) by auto
  qed
qed

text \<open>
  Claim C4 (NCH cover guarantee). For every graph, \<^verbatim>\<open>greedy_vertex_cover\<close> called without
  a size cap (\<^verbatim>\<open>max_nodes = None\<close>) returns, and the set it returns is a vertex cover of the
  input graph: every edge \<open>{u, v}\<close> of the input (\<open>v\<close> a neighbour of \<open>u\<close>) has \<open>u\<close> or
  \<open>v\<close> in it. Self-loops are allowed.
\<close>

theorem nch_cover_guarantee:
  assumes "wf_graph G"
  shows "\<exists>cover. greedy_vertex_cover G None = Inr cover \<and>
           (\<forall>u v. v \<in> set (neighbors G u) \<longrightarrow> u \<in> set cover \<or> v \<in> set cover)"
proof -
  have "wf_graph (graph_copy G)" using assms by (rule graph_copy_props(1))
  from gvc_loop_cover [OF refl this, of "[]"]
  obtain cover where c: "gvc_loop None (graph_copy G) [] = Inr cover"
    "\<forall>u v. v \<in> set (neighbors (graph_copy G) u) \<longrightarrow> u \<in> set cover \<or> v \<in> set cover"
    by blast
  then show ?thesis
    using graph_copy_props(3) [OF assms] by (auto simp: greedy_vertex_cover_def)
qed

subsection \<open>Graphs built from an edge table\<close>

lemma wf_add_edge:
  assumes "wf_graph G"
  shows "wf_graph (add_edge u v d G)"
proof -
  have "distinct (nodes (add_edge u v d G))"
    using assms by (simp add: nodes_add_edge distinct_nodes_add_node wf_graph_iff)
  moreover have "\<And>w. distinct (neighbors (add_edge u v d G) w)"
    using assms by (simp add: distinct_neighbors_add_edge wf_graph_iff)
  moreover have "\<And>a b. b \<in> set (neighbors (add_edge u v d G) a) \<Longrightarrow>
      a \<in> set (neighbors (add_edge u v d G) b)"
    using assms by (auto simp: set_neighbors_add_edge wf_graph_iff split: if_splits)
  ultimately show ?thesis by (simp add: wf_graph_iff)
qed

lemma foldl_add_edge_None:
  "wf_graph H \<Longrightarrow> wf_graph (foldl (\<lambda>G (src, trg). add_edge src trg None G) H es)"
  "set (neighbors (foldl (\<lambda>G (src, trg). add_edge src trg None G) H es) w) =
     set (neighbors H w) \<union> {v. (w, v) \<in> set es} \<union> {u. (u, w) \<in> set es}"
proof (induction es arbitrary: H)
  case Nil
  { case 1 then show ?case by simp }
  { case 2 show ?case by simp }
next
  case (Cons e es)
  obtain s t where e: "e = (s, t)" by (cases e)
  { case 1 then show ?case
      unfolding e using Cons.IH(1) [of "add_edge s t None H"] by (simp add: wf_add_edge) }
  { case 2 show ?case
      unfolding e using Cons.IH(2) [of "add_edge s t None H"]
      by (auto simp: set_neighbors_add_edge split: if_splits) }
qed

lemma wf_graph_Nil: "wf_graph []"
  by (simp add: wf_graph_def nodes_def)

lemma wf_edges_df_to_nx: "wf_graph (edges_df_to_nx es)"
  unfolding edges_df_to_nx_def by (rule foldl_add_edge_None(1)) (rule wf_graph_Nil)

lemma neighbors_edges_df_to_nx:
  "set (neighbors (edges_df_to_nx es) w) = {v. (w, v) \<in> set es \<or> (v, w) \<in> set es}"
  unfolding edges_df_to_nx_def foldl_add_edge_None(2) by auto

text \<open>
  Claim C8 (self-loop rejection), as amended. The graph model rejects nothing:
  \<^verbatim>\<open>edges_df_to_nx\<close> passes every row to \<^verbatim>\<open>add_edge\<close>, which raises no error for
  \<open>u = v\<close>, and the graph built from an edge table has a self-loop at \<open>u\<close> exactly when the
  table has a row \<open>(u, u)\<close>.
\<close>

theorem edges_df_to_nx_self_loop:
  "u \<in> set (neighbors (edges_df_to_nx es) u) \<longleftrightarrow> (u, u) \<in> set es"
  by (simp add: neighbors_edges_df_to_nx)

text \<open>
  Claim C8 as stated fails: the one-row table \<open>(1, 1)\<close> is accepted and gives the graph
  whose only node is adjacent to itself.
\<close>

theorem self_loop_accepted:
  "edges_df_to_nx [(1::nat, 1)] = [(1, [(1, None)])] \<and> \<not> no_self_loops (edges_df_to_nx [(1::nat, 1)])"
  by code_simp

text \<open>
  Claim C7 (deterministic max-degree tie-break: the lowest identifier wins). On the graph of
  the one-row table \<open>(2, 1)\<close> both nodes have degree 1 and node 2 was inserted first;
  \<^verbatim>\<open>max(H.degree(), key=lambda x: x[1])\<close> returns the first maximal pair, so the greedy
  cover selects node 2, not the lowest identifier 1.
\<close>

theorem nch_tie_break_first_in_node_order:
  "degree_view (graph_copy (edges_df_to_nx [(2::nat, 1)])) = [(2, 1), (1, 1)] \<and>
   greedy_vertex_cover (edges_df_to_nx [(2::nat, 1)]) None = Inr [2]"
  by code_simp

text \<open>The hypothesis of the cover guarantee holds on a triangle with a pendant node.\<close>

theorem nch_cover_guarantee_witness:
  "wf_graph (edges_df_to_nx [(1::nat, 2), (1, 3), (2, 3), (3, 4)]) \<and>
   (\<exists>cover. greedy_vertex_cover (edges_df_to_nx [(1::nat, 2), (1, 3), (2, 3), (3, 4)]) None = Inr cover \<and>
      (\<forall>u v. v \<in> set (neighbors (edges_df_to_nx [(1::nat, 2), (1, 3), (2, 3), (3, 4)]) u) \<longrightarrow>
         u \<in> set cover \<or> v \<in> set cover))"
proof -
  have h: "wf_graph (edges_df_to_nx [(1::nat, 2), (1, 3), (2, 3), (3, 4)])" by code_simp
  show ?thesis using h nch_cover_guarantee [OF h] by blast
qed

section \<open>Clique projection (hyper\_to\_edges.py, make\_fhs\_edges.py, make\_nch\_edges.py, make\_supernode\_edges.py)\<close>

text \<open>
  A hyperedge is a \<^verbatim>\<open>frozenset\<close> of nodes; the projection iterates it, so here it is the
  list of its members in iteration order, without repetition. The capacity allocation is a
  dict whose keys are the tuples \<^verbatim>\<open>(node, index)\<close>; \<^verbatim>\<open>hyperedges_to_directed_edges_df\<close> also
  looks a bare node up in it.
\<close>

datatype 'a cap_key = Pair_key 'a nat | Node_key 'a

type_synonym 'a node_caps = "'a cap_key \<rightharpoonup> real"

record 'a edge_row =
  src :: 'a
  trg :: 'a
  capacity :: real
  base_fee :: real
  fee_rate :: real
  enabled :: bool

text \<open>
  \<^verbatim>\<open>hyperedges_to_directed_edges_df\<close>: the body of the loop over
  \<^verbatim>\<open>enumerate(hyperedges)\<close>, then the loop. The capacity is
  \<^verbatim>\<open>node_capacity_map.get((u, idx), node_capacity_map.get(u, 1.0))\<close>.
\<close>

definition df_rows_of_hyperedge ::
  "'a node_caps \<Rightarrow> real \<Rightarrow> real \<Rightarrow> nat \<Rightarrow> 'a list \<Rightarrow> 'a edge_row list" where
  "df_rows_of_hyperedge node_capacity_map bf fr idx hed =
     [\<lparr>src = u, trg = v,
       capacity = (case node_capacity_map (Pair_key u idx) of
                     Some c \<Rightarrow> c
                   | None \<Rightarrow> (case node_capacity_map (Node_key u) of Some c \<Rightarrow> c | None \<Rightarrow> 1)),
       base_fee = bf, fee_rate = fr, enabled = True\<rparr>.
      u \<leftarrow> hed, v \<leftarrow> hed, u \<noteq> v]"

definition hyperedges_to_directed_edges_df ::
  "'a list list \<Rightarrow> 'a node_caps \<Rightarrow> real \<Rightarrow> real \<Rightarrow> 'a edge_row list" where
  "hyperedges_to_directed_edges_df hyperedges node_capacity_map bf fr =
     concat (map (\<lambda>(idx, hed). df_rows_of_hyperedge node_capacity_map bf fr idx hed)
               (enumerate 0 hyperedges))"

text \<open>
  \<^verbatim>\<open>sizes and max(sizes) > threshold\<close>: an empty list of sizes is falsy, and \<^verbatim>\<open>max\<close> is
  then not called. The result is the maximum when the export is refused.
\<close>

definition refused :: "int list \<Rightarrow> int \<Rightarrow> int option" where
  "refused sizes threshold =
     (case py_max (\<lambda>s. s) sizes of
        Inl e \<Rightarrow> None
      | Inr m \<Rightarrow> if m > threshold then Some m else None)"

text \<open>
  \<^verbatim>\<open>export_clique_edges_csv\<close> (make\_fhs\_edges.py): the size check comes before any row is
  made. What is returned stands for the rows written to the CSV file and their number.
\<close>

definition csv_rows_of_hyperedge :: "'a node_caps \<Rightarrow> nat \<Rightarrow> 'a list \<Rightarrow> 'a edge_row list" where
  "csv_rows_of_hyperedge node_caps idx hed =
     [\<lparr>src = u, trg = v,
       capacity = (case node_caps (Pair_key u idx) of None \<Rightarrow> 1 | Some cap \<Rightarrow> cap),
       base_fee = 100, fee_rate = 1, enabled = True\<rparr>.
      u \<leftarrow> hed, v \<leftarrow> hed, u \<noteq> v]"

definition export_clique_edges_csv ::
  "'a list list \<Rightarrow> 'a node_caps \<Rightarrow> int \<Rightarrow> error + ('a edge_row list \<times> nat)" where
  "export_clique_edges_csv hyperedges node_caps warn_threshold =
     (let sizes = map (\<lambda>h. int (length h)) hyperedges in
      case refused sizes warn_threshold of
        Some m \<Rightarrow> Inl (HyperedgeTooLarge m warn_threshold)
      | None \<Rightarrow>
          let rows = concat (map (\<lambda>(idx, hed). csv_rows_of_hyperedge node_caps idx hed)
                              (enumerate 0 hyperedges))
          in Inr (rows, length rows))"

text \<open>
  \<^verbatim>\<open>export_clique\<close> (make\_nch\_edges.py): the same check; the base fee of a row is the
  source's entry in \<^verbatim>\<open>fee_profile\<close> when the profile is given and not empty, else 100.
\<close>

definition nch_rows_of_hyperedge ::
  "'a node_caps \<Rightarrow> ('a \<rightharpoonup> real) option \<Rightarrow> nat \<Rightarrow> 'a list \<Rightarrow> 'a edge_row list" where
  "nch_rows_of_hyperedge node_caps fee_profile idx hed =
     [\<lparr>src = u, trg = v,
       capacity = (case node_caps (Pair_key u idx) of None \<Rightarrow> 1 | Some cap \<Rightarrow> cap),
       base_fee = (case fee_profile of
                     None \<Rightarrow> 100
                   | Some p \<Rightarrow> if p = Map.empty then 100
                               else (case p u of None \<Rightarrow> 100 | Some f \<Rightarrow> f)),
       fee_rate = 1, enabled = True\<rparr>.
      u \<leftarrow> hed, v \<leftarrow> hed, u \<noteq> v]"

definition export_clique ::
  "'a list list \<Rightarrow> 'a node_caps \<Rightarrow> int \<Rightarrow> ('a \<rightharpoonup> real) option \<Rightarrow>
     error + ('a edge_row list \<times> nat)" where
  "export_clique hyperedges node_caps max_clique_size fee_profile =
     (let sizes = map (\<lambda>h. int (length h)) hyperedges in
      case refused sizes max_clique_size of
        Some m \<Rightarrow> Inl (HyperedgeTooLarge m max_clique_size)
      | None \<Rightarrow>
          let rows = concat (map (\<lambda>(idx, hed). nch_rows_of_hyperedge node_caps fee_profile idx hed)
                              (enumerate 0 hyperedges))
          in Inr (rows, length rows))"

text \<open>
  The inline conversion of make\_supernode\_edges.py: no size check; a missing allocation
  becomes 1.0.
\<close>

definition supernode_rows_of_hyperedge ::
  "'a node_caps \<Rightarrow> nat \<Rightarrow> 'a list \<Rightarrow> 'a edge_row list" where
  "supernode_rows_of_hyperedge node_caps idx hed =
     [\<lparr>src = u, trg = v,
       capacity = (case node_caps (Pair_key u idx) of None \<Rightarrow> 1 | Some cap \<Rightarrow> cap),
       base_fee = 100, fee_rate = 1, enabled = True\<rparr>.
      u \<leftarrow> hed, v \<leftarrow> hed, u \<noteq> v]"

definition supernode_rows :: "'a list list \<Rightarrow> 'a node_caps \<Rightarrow> 'a edge_row list" where
  "supernode_rows hyperedges node_caps =
     concat (map (\<lambda>(idx, hed). supernode_rows_of_hyperedge node_caps idx hed)
               (enumerate 0 hyperedges))"

subsection \<open>The size guard\<close>

lemma foldl_max_ge:
  fixes key :: "'b \<Rightarrow> 'k::linorder"
  shows "\<forall>y \<in> set (x # xs). key y \<le> key (foldl (\<lambda>best y. if key best < key y then y else best) x xs)"
proof (induction xs arbitrary: x)
  case Nil show ?case by simp
next
  case (Cons a xs)
  let ?b = "if key x < key a then a else x"
  have "key x \<le> key ?b" "key a \<le> key ?b" by auto
  moreover have "\<forall>y \<in> set (?b # xs).
      key y \<le> key (foldl (\<lambda>best y. if key best < key y then y else best) ?b xs)"
    by (rule Cons.IH)
  ultimately show ?case by (auto intro: order_trans simp del: if_split)
qed

lemma py_max_ge: "py_max key xs = Inr b \<Longrightarrow> y \<in> set xs \<Longrightarrow> key y \<le> key b"
proof (cases xs)
  case Nil
  assume "py_max key xs = Inr b" then show ?thesis using Nil by simp
next
  case (Cons x xs')
  assume "py_max key xs = Inr b" and "y \<in> set xs"
  then show ?thesis using foldl_max_ge [where key = key and x = x and xs = xs'] Cons by auto
qed

lemma refused_Some:
  "refused sizes t = Some m \<longleftrightarrow> m \<in> set sizes \<and> (\<forall>s \<in> set sizes. s \<le> m) \<and> t < m"
proof (cases sizes)
  case Nil then show ?thesis by (simp add: refused_def)
next
  case (Cons s ss)
  then obtain b where b: "py_max (\<lambda>s. s) sizes = Inr b" by auto
  have "b \<in> set sizes" "\<forall>s \<in> set sizes. s \<le> b"
    using py_max_in [OF b] py_max_ge [OF b] by auto
  then show ?thesis using b by (auto simp: refused_def dest: antisym)
qed

lemma refused_None: "refused sizes t = None \<longleftrightarrow> (\<forall>s \<in> set sizes. s \<le> t)"
proof (cases sizes)
  case Nil then show ?thesis by (simp add: refused_def)
next
  case (Cons s ss)
  then obtain b where b: "py_max (\<lambda>s. s) sizes = Inr b" by auto
  have "b \<in> set sizes" "\<forall>s \<in> set sizes. s \<le> b"
    using py_max_in [OF b] py_max_ge [OF b] by auto
  then show ?thesis using b by (auto simp: refused_def not_le intro: bexI [of _ b])
qed

text \<open>
  Claim C6 (clique projection guard). For every list of hyperedges and every threshold
  \<open>T\<close>: if some hyperedge has more than \<open>T\<close> members, \<^verbatim>\<open>export_clique_edges_csv\<close> and
  \<^verbatim>\<open>export_clique\<close> fail with the error that carries the largest hyperedge size and \<open>T\<close>,
  and so return no rows; otherwise both succeed and return their rows.
\<close>

theorem clique_guard:
  "(if \<exists>h \<in> set hyperedges. T < int (length h)
    then \<exists>h \<in> set hyperedges. T < int (length h) \<and>
           (\<forall>h' \<in> set hyperedges. length h' \<le> length h) \<and>
           export_clique_edges_csv hyperedges node_caps T = Inl (HyperedgeTooLarge (int (length h)) T) \<and>
           export_clique hyperedges node_caps T fee_profile = Inl (HyperedgeTooLarge (int (length h)) T)
    else (\<exists>rows. export_clique_edges_csv hyperedges node_caps T = Inr (rows, length rows)) \<and>
         (\<exists>rows. export_clique hyperedges node_caps T fee_profile = Inr (rows, length rows)))"
proof (cases "refused (map (\<lambda>h. int (length h)) hyperedges) T")
  case None
  then have "\<not> (\<exists>h \<in> set hyperedges. T < int (length h))"
    by (auto simp: refused_None)
  then show ?thesis using None
    by (simp add: export_clique_edges_csv_def export_clique_def Let_def)
next
  case (Some m)
  then obtain h where h: "h \<in> set hyperedges" "m = int (length h)" "T < m"
    "\<forall>h' \<in> set hyperedges. int (length h') \<le> m"
    by (auto simp: refused_Some)
  then have "\<exists>h \<in> set hyperedges. T < int (length h)" by auto
  moreover have "export_clique_edges_csv hyperedges node_caps T = Inl (HyperedgeTooLarge (int (length h)) T)"
    "export_clique hyperedges node_caps T fee_profile = Inl (HyperedgeTooLarge (int (length h)) T)"
    using Some h(2) by (simp_all add: export_clique_edges_csv_def export_clique_def Let_def)
  ultimately show ?thesis using h by auto
qed

text \<open>The guard refuses the second of two hyperedges against the threshold 2.\<close>

theorem clique_guard_witness:
  "(\<exists>h \<in> set [[1, 2], [1, 2, 3::nat]]. 2 < int (length h)) \<and>
   export_clique_edges_csv [[1, 2], [1, 2, 3::nat]] Map.empty 2 = Inl (HyperedgeTooLarge 3 2) \<and>
   export_clique [[1, 2], [1, 2, 3::nat]] Map.empty 2 None = Inl (HyperedgeTooLarge 3 2)"
proof -
  have e: "\<exists>h \<in> set [[1, 2], [1, 2, 3::nat]]. 2 < int (length h)" by simp
  from clique_guard [of "[[1, 2], [1, 2, 3::nat]]" 2 Map.empty None] e
  obtain h where h: "h \<in> set [[1, 2], [1, 2, 3::nat]]" "2 < int (length h)"
    "export_clique_edges_csv [[1, 2], [1, 2, 3::nat]] Map.empty 2 = Inl (HyperedgeTooLarge (int (length h)) 2)"
    "export_clique [[1, 2], [1, 2, 3::nat]] Map.empty 2 None = Inl (HyperedgeTooLarge (int (length h)) 2)"
    by (auto simp del: set_simps split: if_splits)
  from h(1,2) have "int (length h) = 3" by auto
  then show ?thesis using e h(3,4) by simp
qed

subsection \<open>Members without an allocation\<close>






section \<open>FHS: fixed-size clustering (topologies/fhs.py)\<close>

text \<open>
  Python's \<^verbatim>\<open>hash\<close> of a node is a parameter \<open>hash\<close> of the model: for a small non-negative
  integer it is the integer itself, for a string it changes from one process to the next.
\<close>

definition highest_degree_node :: "('a \<Rightarrow> int) \<Rightarrow> 'a graph \<Rightarrow> error + 'a" where
  "highest_degree_node hash G = py_max (\<lambda>n. (degree G n, - hash n)) (nodes G)"

text \<open>
  \<^verbatim>\<open>bfs_collect_m\<close>. \<open>bfs_visit\<close> is the \<^verbatim>\<open>for nb in G.neighbors(cur)\<close> loop with its
  \<^verbatim>\<open>break\<close>; \<open>bfs_loop\<close> is the \<^verbatim>\<open>while q and len(collected) < m_max\<close> loop, which
  pops the head of the queue.
\<close>

fun bfs_visit :: "int \<Rightarrow> 'a list \<Rightarrow> 'a set \<times> 'a list \<times> 'a list \<Rightarrow> 'a set \<times> 'a list \<times> 'a list" where
  "bfs_visit m_max [] (visited, q, collected) = (visited, q, collected)"
| "bfs_visit m_max (nb # nbs) (visited, q, collected) =
     (if nb \<notin> visited then
        (if int (length (collected @ [nb])) \<ge> m_max
         then (insert nb visited, q @ [nb], collected @ [nb])
         else bfs_visit m_max nbs (insert nb visited, q @ [nb], collected @ [nb]))
      else bfs_visit m_max nbs (visited, q, collected))"

text \<open>Every node that occurs in the graph, as a key or in an adjacency.\<close>

definition all_nodes :: "'a graph \<Rightarrow> 'a set" where
  "all_nodes G = set (nodes G) \<union> (\<Union>n \<in> set (nodes G). set (neighbors G n))"

lemma finite_all_nodes [simp]: "finite (all_nodes G)"
  by (simp add: all_nodes_def)

lemma neighbors_subset_all_nodes: "set (neighbors G u) \<subseteq> all_nodes G"
proof (cases "u \<in> set (nodes G)")
  case True then show ?thesis by (auto simp: all_nodes_def)
next
  case False
  then have "map_of G u = None" by (simp add: nodes_def map_of_eq_None_iff)
  then show ?thesis by (simp add: neighbors_def adj_of_def)
qed

lemma bfs_visit_measure:
  assumes "finite U" "set nbs \<subseteq> U"
    and "bfs_visit m_max nbs (visited, q, collected) = (visited', q', collected')"
  shows "2 * card (U - visited') + length q' \<le> 2 * card (U - visited) + length q"
  using assms(2,3)
proof (induction nbs arbitrary: visited q collected)
  case Nil then show ?case by simp
next
  case (Cons nb nbs)
  show ?case
  proof (cases "nb \<in> visited")
    case True then show ?thesis using Cons by simp
  next
    case False
    have "nb \<in> U - visited" using False Cons.prems(1) by simp
    then have c: "card (U - insert nb visited) < card (U - visited)"
      using assms(1) by (intro psubset_card_mono) auto
    show ?thesis
    proof (cases "int (length (collected @ [nb])) \<ge> m_max")
      case True
      then show ?thesis using False Cons.prems(2) c by auto
    next
      case ge: False
      then have "bfs_visit m_max nbs (insert nb visited, q @ [nb], collected @ [nb]) =
          (visited', q', collected')"
        using False Cons.prems(2) by simp
      from Cons.IH [OF _ this] Cons.prems(1) c show ?thesis by simp
    qed
  qed
qed

function bfs_loop :: "'a graph \<Rightarrow> int \<Rightarrow> 'a set \<times> 'a list \<times> 'a list \<Rightarrow> 'a list" where
  "bfs_loop G m_max (visited, q, collected) =
     (case q of
        [] \<Rightarrow> collected
      | cur # q' \<Rightarrow>
          if int (length collected) < m_max
          then bfs_loop G m_max (bfs_visit m_max (neighbors G cur) (visited, q', collected))
          else collected)"
  by pat_completeness auto
termination
proof (relation "measure (\<lambda>(G, m_max, visited, q, collected).
                   2 * card (all_nodes G - visited) + length q)")
  show "wf (measure (\<lambda>(G, m_max, visited, q, collected).
                   2 * card (all_nodes G - visited) + length q))" by simp
next
  fix G :: "'a graph" and m_max :: int and visited :: "'a set" and q collected :: "'a list"
    and cur q'
  assume q: "q = cur # q'"
  obtain v' q'' c' where r: "bfs_visit m_max (neighbors G cur) (visited, q', collected) = (v', q'', c')"
    by (cases "bfs_visit m_max (neighbors G cur) (visited, q', collected)")
  have "2 * card (all_nodes G - v') + length q'' \<le> 2 * card (all_nodes G - visited) + length q'"
    using bfs_visit_measure [OF finite_all_nodes neighbors_subset_all_nodes r] .
  then show "((G, m_max, bfs_visit m_max (neighbors G cur) (visited, q', collected)),
        G, m_max, visited, q, collected)
       \<in> measure (\<lambda>(G, m_max, visited, q, collected).
                   2 * card (all_nodes G - visited) + length q)"
    using q r by simp
qed

definition bfs_collect_m :: "'a graph \<Rightarrow> 'a \<Rightarrow> int \<Rightarrow> 'a list" where
  "bfs_collect_m G start_node m_max = bfs_loop G m_max ({start_node}, [start_node], [start_node])"

text \<open>
  \<^verbatim>\<open>node_to_hyperedges\<close> is a dict from node to the list of its hyperedge indices;
  \<^verbatim>\<open>node_to_hyperedges[v].append(i)\<close> raises \<^verbatim>\<open>KeyError\<close> when \<open>v\<close> is not a key.
\<close>

type_synonym 'a membership = "('a \<times> nat list) list"

fun append_index :: "nat \<Rightarrow> 'a list \<Rightarrow> 'a membership \<Rightarrow> error + 'a membership" where
  "append_index i [] n2h = Inr n2h"
| "append_index i (v # vs) n2h =
     (case map_of n2h v of
        None \<Rightarrow> Inl KeyError
      | Some idxs \<Rightarrow> append_index i vs (AList.update v (idxs @ [i]) n2h))"

text \<open>
  One round of the main loop of \<^verbatim>\<open>create_fhs\<close>, entered with edges and nodes left. The
  set \<^verbatim>\<open>Ve_set\<close> is the list of its members without repetition; the order in which Python
  iterates it changes neither the membership lists nor the graph that is left.
\<close>

datatype 's step = Continue 's | Break 's | Raise error

type_synonym 'a fhs_state = "'a graph \<times> 'a list list \<times> 'a membership"

definition fhs_round :: "('a::linorder \<Rightarrow> int) \<Rightarrow> int \<Rightarrow> 'a fhs_state \<Rightarrow> 'a fhs_state step" where
  "fhs_round hash m_max st =
     (case st of (G, hyperedges, node_to_hyperedges) \<Rightarrow>
        (case py_max (\<lambda>n. (degree G n, - hash n)) (nodes G) of
           Inl e \<Rightarrow> Raise e
         | Inr node \<Rightarrow>
             let Ve_list = bfs_collect_m G node m_max;
                 Ve_set = remdups Ve_list
             in if length Ve_set = 0 then Break st
                else
                  let hed_idx = length hyperedges;
                      hyperedges' = hyperedges @ [Ve_set]
                  in (case append_index hed_idx Ve_set node_to_hyperedges of
                        Inl e \<Rightarrow> Raise e
                      | Inr node_to_hyperedges' \<Rightarrow>
                          let internal_edges =
                                [(u, v). u \<leftarrow> Ve_set, v \<leftarrow> neighbors G u, v \<in> set Ve_set \<and> u < v];
                              G1 = remove_edges_from G internal_edges;
                              isolated = [n. (n, d) \<leftarrow> degree_view G1, d = 0];
                              G2 = (if isolated \<noteq> [] then remove_nodes_from G1 isolated else G1)
                          in Continue (G2, hyperedges', node_to_hyperedges'))))"

text \<open>
  The main loop, \<^verbatim>\<open>while G.number_of_edges() > 0\<close>, with the number of rounds it may still
  run: \<open>None\<close> is a loop that wants one more round than it was given.
\<close>

fun fhs_loop ::
  "nat \<Rightarrow> ('a::linorder \<Rightarrow> int) \<Rightarrow> int \<Rightarrow> 'a fhs_state \<Rightarrow> (error + 'a fhs_state) option" where
  "fhs_loop fuel hash m_max (G, hyperedges, n2h) =
     (if number_of_edges G > 0 then
        (if number_of_nodes G = 0 then Some (Inr (G, hyperedges, n2h))
         else (case fuel of
                 0 \<Rightarrow> None
               | Suc fuel' \<Rightarrow>
                   (case fhs_round hash m_max (G, hyperedges, n2h) of
                      Raise e \<Rightarrow> Some (Inl e)
                    | Break st \<Rightarrow> Some (Inr st)
                    | Continue st \<Rightarrow> fhs_loop fuel' hash m_max st)))
      else Some (Inr (G, hyperedges, n2h)))"

text \<open>
  \<^verbatim>\<open>G.edges(data=True)\<close>: every edge once, reported from the endpoint that comes first in
  node order (a neighbour that has already been the reporting node is skipped).
\<close>

fun edges_data_from :: "'a list \<Rightarrow> 'a graph \<Rightarrow> ('a \<times> 'a \<times> attrs) list" where
  "edges_data_from seen [] = []"
| "edges_data_from seen ((n, nbrs) # G) =
     [(n, nbr, dd). (nbr, dd) \<leftarrow> nbrs, nbr \<notin> set seen] @ edges_data_from (n # seen) G"

definition edges_data :: "'a graph \<Rightarrow> ('a \<times> 'a \<times> attrs) list" where
  "edges_data G = edges_data_from [] G"

text \<open>
  The capacity block of \<^verbatim>\<open>create_fhs\<close>. Python floats are modelled by the reals.
  \<^verbatim>\<open>node_total\<close> starts at 0.0 for every node of the input graph and receives the capacity
  of each edge at both endpoints (\<^verbatim>\<open>data.get('capacity', 0.0)\<close>); it is read with
  \<^verbatim>\<open>node_total.get(v, 0.0)\<close>, so it is a function that is 0 elsewhere.
\<close>

definition node_total :: "'a graph \<Rightarrow> 'a \<Rightarrow> real" where
  "node_total G_input =
     foldl (\<lambda>t (u, v, data).
              let cap = (case data of None \<Rightarrow> 0 | Some c \<Rightarrow> c);
                  t1 = t(u := t u + cap)
              in t1(v := t1 v + cap))
       (\<lambda>n. 0) (edges_data G_input)"

text \<open>
  The loop \<^verbatim>\<open>for v, hed_idxs in node_to_hyperedges.items()\<close> that fills
  \<^verbatim>\<open>node_capacity_in_hyperedge\<close>, a dict with the keys \<^verbatim>\<open>(v, idx)\<close>: a node without
  hyperedges is skipped, every other node gets \<^verbatim>\<open>total / len(hed_idxs)\<close> at each of its
  indices.
\<close>

type_synonym 'a allocation = "(('a \<times> nat) \<times> real) list"

definition split_evenly :: "('a \<Rightarrow> real) \<Rightarrow> 'a membership \<Rightarrow> 'a allocation" where
  "split_evenly total_of node_to_hyperedges =
     foldl (\<lambda>caps (v, hed_idxs).
              if hed_idxs = [] then caps
              else foldl (\<lambda>caps idx. AList.update (v, idx) (total_of v / real (length hed_idxs)) caps)
                     caps hed_idxs)
       [] node_to_hyperedges"

text \<open>
  \<^verbatim>\<open>create_fhs(G_input, m_max, use_edge_capacity)\<close>, with the number of rounds the main
  loop may run.
\<close>

definition create_fhs ::
  "nat \<Rightarrow> ('a::linorder \<Rightarrow> int) \<Rightarrow> 'a graph \<Rightarrow> int \<Rightarrow> bool \<Rightarrow>
     (error + 'a list list \<times> 'a membership \<times> 'a allocation) option" where
  "create_fhs fuel hash G_input m_max use_edge_capacity =
     (let G = graph_copy G_input;
          node_to_hyperedges = map (\<lambda>n. (n, [])) (nodes G_input)
      in case fhs_loop fuel hash m_max (G, [], node_to_hyperedges) of
           None \<Rightarrow> None
         | Some (Inl e) \<Rightarrow> Some (Inl e)
         | Some (Inr (G', hyperedges, n2h)) \<Rightarrow>
             let has_capacity_attr = list_ex (\<lambda>(u, v, d). d \<noteq> None) (edges_data G_input);
                 node_capacity_in_hyperedge =
                   (if use_edge_capacity then
                      (if has_capacity_attr then split_evenly (node_total G_input) n2h
                       else split_evenly (\<lambda>v. 1) n2h)
                    else [])
             in Some (Inr (hyperedges, n2h, node_capacity_in_hyperedge)))"

text \<open>
  The redistribution of make\_fhs\_edges.py (\<^verbatim>\<open>compute_node_totals\<close> and the loop of
  \<^verbatim>\<open>main\<close>): the totals come from the rows of the edge table, and a total that is not
  positive is replaced by 1.0 before it is split.
\<close>

definition compute_node_totals :: "('a \<times> 'a \<times> real) list \<Rightarrow> 'a \<rightharpoonup> real" where
  "compute_node_totals edges_df =
     foldl (\<lambda>t (u, v, cap).
              let t1 = t(u \<mapsto> (case t u of None \<Rightarrow> 0 | Some x \<Rightarrow> x) + cap)
              in t1(v \<mapsto> (case t1 v of None \<Rightarrow> 0 | Some x \<Rightarrow> x) + cap))
       Map.empty edges_df"

definition main_node_caps :: "('a \<times> 'a \<times> real) list \<Rightarrow> 'a membership \<Rightarrow> 'a allocation" where
  "main_node_caps edges_df node_to_hyperedges =
     (let node_totals = compute_node_totals edges_df
      in split_evenly
           (\<lambda>node. let total_v = (case node_totals node of None \<Rightarrow> 0 | Some x \<Rightarrow> x)
                    in if total_v \<le> 0 then 1 else total_v)
           node_to_hyperedges)"

section \<open>FHS on concrete graphs\<close>

text \<open>
  Claim C1 as stated fails (every original edge has both endpoints together in exactly one
  hyperedge). On the graph with the edges 1-2, 1-3, 1-4, 2-4 and \<open>m_max = 3\<close> the first
  round collects \<open>{1, 2, 3}\<close> from node 1 and removes 1-2 and 1-3; nodes 1 and 2 stay in the
  working graph, and the second round collects \<open>{4, 1, 2}\<close> from node 4. The edge 1-2 has
  both endpoints in both hyperedges.
\<close>

theorem fhs_edge_in_two_hyperedges:
  "create_fhs 2 int (edges_df_to_nx [(1::nat, 2), (1, 3), (1, 4), (2, 4)]) 3 False =
     Some (Inr ([[1, 2, 3], [4, 1, 2]], [(1, [0, 1]), (2, [0, 1]), (3, [0]), (4, [1])], [])) \<and>
   2 \<in> set (neighbors (edges_df_to_nx [(1::nat, 2), (1, 3), (1, 4), (2, 4)]) 1) \<and>
   (1::nat) \<in> set [1, 2, 3] \<and> (2::nat) \<in> set [1, 2, 3] \<and>
   (1::nat) \<in> set [4, 1, 2] \<and> (2::nat) \<in> set [4, 1, 2]"
  by code_simp

text \<open>
  Claim C3 (uniform split of the node total, with a total that is not positive replaced by
  1.0 before the split). Floats are modelled by reals; at this input every operation is exact
  in floating point too. The graph has the one edge 1-2 with capacity 0.0: the capacity block
  of \<^verbatim>\<open>create_fhs\<close> allocates 0.0 to both members of the hyperedge, while the redistribution
  of make\_fhs\_edges.py on the same data allocates 1.0.
\<close>

theorem fhs_zero_total_not_floored:
  "create_fhs 1 int (add_edge (1::nat) 2 (Some 0) []) 2 True =
     Some (Inr ([[1, 2]], [(1, [0]), (2, [0])], [((1, 0), 0), ((2, 0), 0)])) \<and>
   main_node_caps [(1::nat, 2, 0)] [(1, [0]), (2, [0])] = [((1, 0), 1), ((2, 0), 1)]"
  by code_simp

definition edge23 :: "nat graph" where
  "edge23 = [(2, [(3, None)]), (3, [(2, None)])]"

lemma edge23_facts:
  "graph_copy (edges_df_to_nx [(2::nat, 3)]) = edge23"
  "nodes (edges_df_to_nx [(2::nat, 3)]) = [2, 3]"
  "number_of_edges edge23 = 1"
  "number_of_nodes edge23 = 2"
  "py_max (\<lambda>n. (degree edge23 n, - int n)) (nodes edge23) = Inr 2"
  "bfs_collect_m edge23 2 1 = [2]"
  "neighbors edge23 2 = [3]"
  "remove_edges_from edge23 [] = edge23"
  "degree_view edge23 = [(2, 1), (3, 1)]"
  by code_simp+

lemma fhs_round_edge23:
  "map_of n2h 2 = Some l \<Longrightarrow>
   fhs_round int 1 (edge23, hs, n2h) =
     Continue (edge23, hs @ [[2]], AList.update 2 (l @ [length hs]) n2h)"
  unfolding fhs_round_def by (simp add: edge23_facts Let_def)

lemma fhs_loop_edge23:
  "map_of n2h 2 = Some l \<Longrightarrow> fhs_loop fuel int 1 (edge23, hs, n2h) = None"
proof (induction fuel arbitrary: hs n2h l)
  case 0
  then show ?case by (simp add: edge23_facts)
next
  case (Suc fuel)
  have "map_of (AList.update 2 (l @ [length hs]) n2h) 2 = Some (l @ [length hs])"
    by (simp add: update_conv')
  from Suc.IH [OF this] show ?case
    using fhs_round_edge23 [OF Suc.prems] by (simp add: edge23_facts)
qed

text \<open>
  Claim C2 (FHS termination for every \<open>m_max \<ge> 1\<close>). With \<open>m_max = 1\<close> the search returns
  the start node alone, no edge has both endpoints in the hyperedge, and the round leaves the
  graph as it was: on the graph with the single edge 2-3 no number of rounds is enough.
\<close>

theorem fhs_m_max_1_never_returns:
  "\<forall>fuel. create_fhs fuel int (edges_df_to_nx [(2::nat, 3)]) 1 use_edge_capacity = None"
proof
  fix fuel
  have "fhs_loop fuel int 1 (edge23, [], [(2, []), (3, [])]) = None"
    by (rule fhs_loop_edge23 [of _ "[]"]) simp
  then show "create_fhs fuel int (edges_df_to_nx [(2::nat, 3)]) 1 use_edge_capacity = None"
    by (simp add: create_fhs_def edge23_facts)
qed

section \<open>FHS: every edge is covered\<close>

subsection \<open>Removing edges and isolated nodes\<close>

lemma wf_graph_filtered:
  assumes "wf_graph G" and "nodes G' = nodes G"
    and "\<And>u. neighbors G' u = filter (Q u) (neighbors G u)"
    and "\<And>u v. Q u v = Q v u"
  shows "wf_graph G'"
proof -
  have sym: "\<And>u v. v \<in> set (neighbors G u) \<Longrightarrow> u \<in> set (neighbors G v)"
    and d: "\<And>u. distinct (neighbors G u)" and dn: "distinct (nodes G)"
    using assms(1) by (simp_all add: wf_graph_iff)
  have "\<And>u v. v \<in> set (neighbors G' u) \<Longrightarrow> u \<in> set (neighbors G' v)"
  proof -
    fix u v assume "v \<in> set (neighbors G' u)"
    then have "v \<in> set (neighbors G u)" "Q u v" by (simp_all add: assms(3))
    then show "u \<in> set (neighbors G' v)" using sym assms(4) by (simp add: assms(3))
  qed
  moreover have "\<And>u. distinct (neighbors G' u)" using d by (simp add: assms(3))
  ultimately show ?thesis using dn unfolding wf_graph_iff assms(2) by blast
qed

lemma removeAll_neq: "removeAll x xs = filter (\<lambda>v. v \<noteq> x) xs"
  by (induction xs) auto

lemma neighbors_remove_edge:
  assumes "wf_graph G"
  shows "neighbors (remove_edge G e) u =
           filter (\<lambda>v. \<not> ((u = fst e \<and> v = snd e) \<or> (u = snd e \<and> v = fst e))) (neighbors G u)"
proof -
  obtain a b where e: "e = (a, b)" by (cases e)
  show ?thesis
  proof (cases "b \<in> set (neighbors G a)")
    case True
    have "neighbors (remove_edge G e) u =
        (if u = b then removeAll a (if u = a then removeAll b (neighbors G u) else neighbors G u)
         else if u = a then removeAll b (neighbors G u) else neighbors G u)"
      using True
      by (simp add: e remove_edge_def neighbors_def adj_of_map_entry_delete map_fst_delete)
    also have "\<dots> = filter (\<lambda>v. \<not> ((u = a \<and> v = b) \<or> (u = b \<and> v = a))) (neighbors G u)"
    proof (cases "u = a")
      case ua: True
      show ?thesis
      proof (cases "u = b")
        case True
        then show ?thesis using ua by (simp add: removeAll_neq)
      next
        case False
        then show ?thesis using ua by (simp add: removeAll_neq)
      qed
    next
      case ua: False
      show ?thesis
      proof (cases "u = b")
        case True
        then show ?thesis using ua by (simp add: removeAll_neq)
      next
        case False
        then show ?thesis using ua by simp
      qed
    qed
    finally show ?thesis by (simp add: e)
  next
    case False
    then have "a \<notin> set (neighbors G b)" using assms by (auto simp: wf_graph_iff)
    then have "\<forall>v \<in> set (neighbors G u). \<not> ((u = a \<and> v = b) \<or> (u = b \<and> v = a))"
      using False by blast
    then have "filter (\<lambda>v. \<not> ((u = a \<and> v = b) \<or> (u = b \<and> v = a))) (neighbors G u) = neighbors G u"
      by (simp only: filter_id_conv)
    then show ?thesis using False by (simp add: remove_edge_def e)
  qed
qed

lemma nodes_remove_edge [simp]: "nodes (remove_edge G e) = nodes G"
  by (cases e) (simp add: remove_edge_def)

lemma wf_remove_edge: "wf_graph G \<Longrightarrow> wf_graph (remove_edge G e)"
proof -
  assume w: "wf_graph G"
  show ?thesis
    by (rule wf_graph_filtered [OF w _ neighbors_remove_edge [OF w]]) (simp, blast)
qed

lemma remove_edges_from_props:
  assumes "wf_graph G"
  shows "wf_graph (remove_edges_from G es)"
    and "nodes (remove_edges_from G es) = nodes G"
    and "neighbors (remove_edges_from G es) u =
           filter (\<lambda>v. (u, v) \<notin> set es \<and> (v, u) \<notin> set es) (neighbors G u)"
  using assms
proof (induction es arbitrary: G)
  case Nil
  { case 1 then show ?case by (simp add: remove_edges_from_def) }
  { case 2 show ?case by (simp add: remove_edges_from_def) }
  { case 3 show ?case by (simp add: remove_edges_from_def) }
next
  case (Cons e es)
  have step: "\<And>H. remove_edges_from H (e # es) = remove_edges_from (remove_edge H e) es"
    by (simp add: remove_edges_from_def)
  { case 1
    then have w: "wf_graph (remove_edge G e)" by (rule wf_remove_edge)
    show ?case unfolding step by (rule Cons.IH(1) [OF w]) }
  { case 2
    then have w: "wf_graph (remove_edge G e)" by (rule wf_remove_edge)
    show ?case unfolding step using Cons.IH(2) [OF w] by simp }
  { case 3
    then have w: "wf_graph (remove_edge G e)" by (rule wf_remove_edge)
    have "neighbors (remove_edges_from G (e # es)) u =
        filter (\<lambda>v. (u, v) \<notin> set es \<and> (v, u) \<notin> set es)
          (filter (\<lambda>v. \<not> ((u = fst e \<and> v = snd e) \<or> (u = snd e \<and> v = fst e))) (neighbors G u))"
      by (simp only: step Cons.IH(3) [OF w] neighbors_remove_edge [OF 3])
    also have "\<dots> = filter (\<lambda>v. (u, v) \<notin> set (e # es) \<and> (v, u) \<notin> set (e # es)) (neighbors G u)"
      unfolding filter_filter by (rule filter_cong [OF refl]) (auto simp: prod_eq_iff)
    finally show ?case . }
qed

lemma no_self_loops_iff:
  assumes "distinct (nodes G)"
  shows "no_self_loops G \<longleftrightarrow> (\<forall>u. u \<notin> set (neighbors G u))"
proof
  assume L: "no_self_loops G"
  show "\<forall>u. u \<notin> set (neighbors G u)"
  proof
    fix u show "u \<notin> set (neighbors G u)"
    proof (cases "map_of G u")
      case None then show ?thesis by (simp add: neighbors_def adj_of_def)
    next
      case (Some nbrs)
      then have "(u, nbrs) \<in> set G" by (rule map_of_SomeD)
      then have "u \<notin> set (map fst nbrs)" using L by (auto simp: no_self_loops_def list_all_iff)
      then show ?thesis using Some by (simp add: neighbors_def adj_of_def)
    qed
  qed
next
  assume R: "\<forall>u. u \<notin> set (neighbors G u)"
  have "\<And>u nbrs. (u, nbrs) \<in> set G \<Longrightarrow> adj_of G u = nbrs"
    using assms by (simp add: adj_of_def nodes_def)
  then have "\<And>u nbrs. (u, nbrs) \<in> set G \<Longrightarrow> u \<notin> set (map fst nbrs)"
    using R unfolding neighbors_def by metis
  then show "no_self_loops G"
    unfolding no_self_loops_def list_all_iff by blast
qed

lemma degree_no_self_loop: "u \<notin> set (neighbors G u) \<Longrightarrow> degree G u = length (neighbors G u)"
  by (simp add: degree_def neighbors_def)

lemma number_of_edges_sum: "number_of_edges G = sum_list (map (degree G) (nodes G)) div 2"
  by (simp add: number_of_edges_def degree_view_def comp_def)

text \<open>Deleting nodes that have no neighbours changes no adjacency.\<close>

lemma remove_node_isolated: "neighbors G n = [] \<Longrightarrow> remove_node n G = AList.delete n G"
  by (simp add: remove_node_def)

lemma adj_of_empty: "neighbors G n = [] \<Longrightarrow> adj_of G n = []"
  by (simp add: neighbors_def)

lemma remove_isolated_props:
  assumes "\<forall>n \<in> set ns. neighbors G n = []"
  shows "adj_of (remove_nodes_from G ns) w = adj_of G w"
    and "nodes (remove_nodes_from G ns) = filter (\<lambda>n. n \<notin> set ns) (nodes G)"
  using assms
proof (induction ns arbitrary: G)
  case Nil
  { case 1 show ?case by (simp add: remove_nodes_from_def) }
  { case 2 show ?case by (simp add: remove_nodes_from_def) }
next
  case (Cons n ns)
  have step: "remove_nodes_from H (n # ns) = remove_nodes_from (AList.delete n H) ns"
    if "neighbors H n = []" for H :: "'a graph"
    using that by (simp add: remove_nodes_from_def remove_node_isolated)
  have adj: "adj_of (AList.delete n H) w = adj_of H w"
    if "neighbors H n = []" for w and H :: "'a graph"
    using that by (auto simp: adj_of_delete dest: adj_of_empty)
  { case 1
    then have n: "neighbors G n = []" by simp
    have "\<forall>k \<in> set ns. neighbors (AList.delete n G) k = []"
      using 1 adj [OF n] by (simp add: neighbors_def)
    from Cons.IH(1) [OF this] show ?case by (simp add: step [OF n] adj [OF n]) }
  { case 2
    then have n: "neighbors G n = []" by simp
    have "\<forall>k \<in> set ns. neighbors (AList.delete n G) k = []"
      using 2 adj [OF n] by (simp add: neighbors_def)
    from Cons.IH(2) [OF this]
    have "nodes (remove_nodes_from G (n # ns)) =
        filter (\<lambda>k. k \<notin> set ns) (filter (\<lambda>k. n \<noteq> k) (nodes G))"
      by (simp add: step [OF n] nodes_delete removeAll_filter_not_eq)
    also have "\<dots> = filter (\<lambda>k. k \<notin> set (n # ns)) (nodes G)"
      unfolding filter_filter by (rule filter_cong [OF refl]) auto
    finally show ?case . }
qed

lemma sum_list_filter_zero:
  fixes f :: "'a \<Rightarrow> nat"
  shows "(\<forall>x \<in> set xs. \<not> P x \<longrightarrow> f x = 0) \<Longrightarrow>
         sum_list (map f (filter P xs)) = sum_list (map f xs)"
  by (induction xs) auto

subsection \<open>What the breadth-first search collects\<close>

declare bfs_loop.simps [simp del]

lemma bfs_visit_sets:
  "bfs_visit m_max nbs (visited, q, collected) = (visited', q', collected') \<Longrightarrow>
   set collected \<subseteq> set collected' \<and> set collected' \<subseteq> set collected \<union> set nbs \<and>
   set q' \<subseteq> set q \<union> set nbs"
proof (induction nbs arbitrary: visited q collected)
  case Nil
  then show ?case by simp
next
  case (Cons nb nbs)
  show ?case
  proof (cases "nb \<in> visited")
    case True
    then have "bfs_visit m_max nbs (visited, q, collected) = (visited', q', collected')"
      using Cons.prems by simp
    from Cons.IH [OF this] show ?thesis by auto
  next
    case False
    show ?thesis
    proof (cases "m_max \<le> int (length (collected @ [nb]))")
      case True
      then have "collected' = collected @ [nb]" "q' = q @ [nb]"
        using Cons.prems False by simp_all
      then show ?thesis by auto
    next
      case ge: False
      then have "bfs_visit m_max nbs (insert nb visited, q @ [nb], collected @ [nb]) =
          (visited', q', collected')"
        using Cons.prems False by simp
      from Cons.IH [OF this] show ?thesis by auto
    qed
  qed
qed

lemma bfs_loop_superset: "set collected \<subseteq> set (bfs_loop G m_max (visited, q, collected))"
proof (induction G m_max "(visited, q, collected)" arbitrary: visited q collected
    rule: bfs_loop.induct)
  case (1 G m_max visited q collected)
  show ?case
  proof (cases q)
    case Nil then show ?thesis by (subst bfs_loop.simps) simp
  next
    case (Cons cur q')
    show ?thesis
    proof (cases "int (length collected) < m_max")
      case False then show ?thesis using Cons by (subst bfs_loop.simps) simp
    next
      case True
      obtain v' q'' c' where r:
        "bfs_visit m_max (neighbors G cur) (visited, q', collected) = (v', q'', c')"
        by (cases "bfs_visit m_max (neighbors G cur) (visited, q', collected)")
      have "set c' \<subseteq> set (bfs_loop G m_max (v', q'', c'))"
        using "1.hyps" [OF Cons True r] .
      moreover have "set collected \<subseteq> set c'" using bfs_visit_sets [OF r] by simp
      ultimately show ?thesis using Cons True r by (subst bfs_loop.simps) simp
    qed
  qed
qed

lemma bfs_loop_subset:
  "\<forall>u \<in> A. set (neighbors G u) \<subseteq> A \<Longrightarrow> set collected \<subseteq> A \<Longrightarrow> set q \<subseteq> A \<Longrightarrow>
   set (bfs_loop G m_max (visited, q, collected)) \<subseteq> A"
proof (induction G m_max "(visited, q, collected)" arbitrary: visited q collected
    rule: bfs_loop.induct)
  case (1 G m_max visited q collected)
  show ?case
  proof (cases q)
    case Nil then show ?thesis using "1.prems"(2) by (subst bfs_loop.simps) simp
  next
    case (Cons cur q')
    show ?thesis
    proof (cases "int (length collected) < m_max")
      case False then show ?thesis using Cons "1.prems"(2) by (subst bfs_loop.simps) simp
    next
      case True
      obtain v' q'' c' where r:
        "bfs_visit m_max (neighbors G cur) (visited, q', collected) = (v', q'', c')"
        by (cases "bfs_visit m_max (neighbors G cur) (visited, q', collected)")
      have "cur \<in> A" using "1.prems"(3) Cons by simp
      then have nb: "set (neighbors G cur) \<subseteq> A" using "1.prems"(1) by blast
      have c: "set c' \<subseteq> A" using bfs_visit_sets [OF r] nb "1.prems"(2) by blast
      have q: "set q'' \<subseteq> A" using bfs_visit_sets [OF r] nb "1.prems"(3) Cons by auto
      have "set (bfs_loop G m_max (v', q'', c')) \<subseteq> A"
        using "1.hyps" [OF Cons True r "1.prems"(1) c q] .
      then show ?thesis using Cons True r by (subst bfs_loop.simps) simp
    qed
  qed
qed

lemma bfs_collect_m_first_neighbor:
  assumes "2 \<le> m_max" and "neighbors G s = nb # rest" and "nb \<noteq> s"
  shows "s \<in> set (bfs_collect_m G s m_max) \<and> nb \<in> set (bfs_collect_m G s m_max)"
proof -
  obtain v' q' c' where r: "bfs_visit m_max (nb # rest) ({s}, [], [s]) = (v', q', c')"
    by (cases "bfs_visit m_max (nb # rest) ({s}, [], [s])")
  have "set ([s] @ [nb]) \<subseteq> set c'"
  proof (cases "m_max \<le> 2")
    case True
    then have "c' = [s, nb]" using r assms(3) by auto
    then show ?thesis by simp
  next
    case False
    then have "bfs_visit m_max rest (insert nb {s}, [] @ [nb], [s] @ [nb]) = (v', q', c')"
      using r assms(3) by simp
    from bfs_visit_sets [OF this] show ?thesis by blast
  qed
  moreover have "bfs_collect_m G s m_max = bfs_loop G m_max (v', q', c')"
    unfolding bfs_collect_m_def using assms(1,2) r by (subst bfs_loop.simps) simp
  ultimately show ?thesis using bfs_loop_superset [of c' G m_max v' q'] by auto
qed

lemma bfs_collect_m_nodes:
  assumes "wf_graph G" and "s \<in> set (nodes G)"
  shows "set (bfs_collect_m G s m_max) \<subseteq> set (nodes G)"
proof -
  have cl: "\<forall>u \<in> set (nodes G). set (neighbors G u) \<subseteq> set (nodes G)"
  proof (intro ballI subsetI)
    fix u v assume "v \<in> set (neighbors G u)"
    then have "u \<in> set (neighbors G v)" using assms(1) by (simp add: wf_graph_iff)
    then show "v \<in> set (nodes G)" by (rule neighbors_in_nodes)
  qed
  have a: "set [s] \<subseteq> set (nodes G)" using assms(2) by simp
  show ?thesis
    unfolding bfs_collect_m_def by (rule bfs_loop_subset [OF cl a a])
qed

subsection \<open>The node of highest degree, the membership lists\<close>

lemma sum_list_pos_ex:
  fixes f :: "'a \<Rightarrow> nat"
  shows "0 < sum_list (map f xs) \<Longrightarrow> \<exists>x \<in> set xs. 0 < f x"
  by (induction xs) auto

lemma py_max_degree_pos:
  assumes "0 < number_of_edges G"
  shows "\<exists>node. py_max (\<lambda>n. (degree G n, - hash n)) (nodes G) = Inr node \<and>
           node \<in> set (nodes G) \<and> 0 < degree G node"
proof -
  have "0 < sum_list (map (degree G) (nodes G))"
    using assms by (simp add: number_of_edges_sum)
  then obtain n where n: "n \<in> set (nodes G)" "0 < degree G n"
    using sum_list_pos_ex by blast
  then have "nodes G \<noteq> []" by auto
  then obtain node where m: "py_max (\<lambda>n. (degree G n, - hash n)) (nodes G) = Inr node"
    using py_max_Inr by blast
  have "(degree G n, - hash n) \<le> (degree G node, - hash node)"
    using py_max_ge [OF m n(1)] .
  then have "degree G n \<le> degree G node" by (auto simp: less_eq_prod_def)
  then show ?thesis using m py_max_in [OF m] n(2) by auto
qed

lemma append_index_ok:
  "set vs \<subseteq> fst ` set n2h \<Longrightarrow>
   \<exists>n2h'. append_index i vs n2h = Inr n2h' \<and> fst ` set n2h' = fst ` set n2h"
proof (induction vs arbitrary: n2h)
  case Nil then show ?case by simp
next
  case (Cons v vs)
  then obtain idxs where s: "map_of n2h v = Some idxs"
    by (cases "map_of n2h v") (auto simp: map_of_eq_None_iff)
  have k: "fst ` set (AList.update v (idxs @ [i]) n2h) = fst ` set n2h"
    using Cons.prems by (auto simp: dom_update)
  then have "set vs \<subseteq> fst ` set (AList.update v (idxs @ [i]) n2h)" using Cons.prems by simp
  from Cons.IH [OF this] show ?case using s k by simp
qed

lemma sum_list_two_less:
  fixes f g :: "'a \<Rightarrow> nat"
  assumes "distinct xs" "a \<in> set xs" "b \<in> set xs" "a \<noteq> b"
    and le: "\<And>x. f x \<le> g x" and "f a < g a" "f b < g b"
  shows "sum_list (map f xs) + 2 \<le> sum_list (map g xs)"
proof -
  have "map g xs = map (\<lambda>x. f x + (g x - f x)) xs" using le by simp
  then have "sum_list (map g xs) = sum_list (map f xs) + sum_list (map (\<lambda>x. g x - f x) xs)"
    by (simp only: sum_list_addf)
  moreover have "(g a - f a) + (g b - f b) \<le> sum_list (map (\<lambda>x. g x - f x) xs)"
    using assms(1-4) by (rule sum_list_two_le)
  ultimately show ?thesis using assms(6,7) by linarith
qed

subsection \<open>One round of the main loop\<close>

lemma concat_map_degree_zero:
  "concat (map (\<lambda>(n, d). if d = 0 then [n] else []) (map (\<lambda>n. (n, f n)) xs)) =
     filter (\<lambda>n. f n = (0::nat)) xs"
  by (induction xs) auto

lemma degree_zero_neighbors: "degree G n = 0 \<Longrightarrow> neighbors G n = []"
  by (simp add: degree_def neighbors_def)

lemma degree_cong: "adj_of G' n = adj_of G n \<Longrightarrow> degree G' n = degree G n"
  by (simp add: degree_def neighbors_def)

lemma fhs_round_progress:
  assumes w: "wf_graph G" and nl: "no_self_loops G" and m: "2 \<le> m_max"
    and e: "0 < number_of_edges G" and k: "set (nodes G) \<subseteq> fst ` set n2h"
  shows "\<exists>G2 Ve n2h'.
           fhs_round hash m_max (G, hs, n2h) = Continue (G2, hs @ [Ve], n2h') \<and>
           wf_graph G2 \<and> no_self_loops G2 \<and> number_of_edges G2 < number_of_edges G \<and>
           set (nodes G2) \<subseteq> fst ` set n2h' \<and>
           (\<forall>u v. v \<in> set (neighbors G u) \<longrightarrow>
                  v \<in> set (neighbors G2 u) \<or> (u \<in> set Ve \<and> v \<in> set Ve))"
proof -
  have dn: "distinct (nodes G)"
    and sym: "\<And>u v. v \<in> set (neighbors G u) \<Longrightarrow> u \<in> set (neighbors G v)"
    using w by (simp_all add: wf_graph_iff)
  have nsl: "\<And>u. u \<notin> set (neighbors G u)"
    using nl no_self_loops_iff [OF dn] by blast
  obtain node where pm: "py_max (\<lambda>n. (degree G n, - hash n)) (nodes G) = Inr node"
    and nn: "node \<in> set (nodes G)" and dp: "0 < degree G node"
    using py_max_degree_pos [OF e] by blast
  have "0 < length (neighbors G node)" using dp nsl by (simp add: degree_no_self_loop)
  then obtain nb rest where nbr: "neighbors G node = nb # rest"
    by (cases "neighbors G node") auto
  have nbn: "nb \<noteq> node" using nsl [of node] nbr by auto
  define Ve where "Ve = remdups (bfs_collect_m G node m_max)"
  have in_Ve: "node \<in> set Ve" "nb \<in> set Ve"
    using bfs_collect_m_first_neighbor [OF m nbr nbn] by (simp_all add: Ve_def)
  have Ve_nodes: "set Ve \<subseteq> set (nodes G)"
    using bfs_collect_m_nodes [OF w nn] by (simp add: Ve_def)
  have ne: "bfs_collect_m G node m_max \<noteq> []" using in_Ve(1) by (auto simp: Ve_def)
  obtain n2h' where ai: "append_index (length hs) Ve n2h = Inr n2h'"
    and keys: "fst ` set n2h' = fst ` set n2h"
    using append_index_ok [of Ve n2h "length hs"] Ve_nodes k by blast
  define es where
    "es = concat (map (\<lambda>u. concat (map (\<lambda>v. if v \<in> set Ve \<and> u < v then [(u, v)] else [])
                                   (neighbors G u))) Ve)"
  define G1 where "G1 = remove_edges_from G es"
  define iso where "iso = concat (map (\<lambda>(n, d). if d = 0 then [n] else []) (degree_view G1))"
  define G2 where "G2 = (if iso \<noteq> [] then remove_nodes_from G1 iso else G1)"
  have lz: "(length Ve = 0) = False" using in_Ve(1) by auto
  have round: "fhs_round hash m_max (G, hs, n2h) = Continue (G2, hs @ [Ve], n2h')"
    by (simp only: fhs_round_def prod.case pm sum.case Let_def Ve_def [symmetric] lz if_False
        ai es_def [symmetric] G1_def [symmetric] iso_def [symmetric] G2_def [symmetric])
  have es_mem: "\<And>u v. (u, v) \<in> set es \<longleftrightarrow>
      u \<in> set Ve \<and> v \<in> set (neighbors G u) \<and> v \<in> set Ve \<and> u < v"
    by (auto simp: es_def)
  have w1: "wf_graph G1" and n1: "nodes G1 = nodes G"
    using remove_edges_from_props(1,2) [OF w] by (simp_all add: G1_def)
  have nb1: "\<And>u. neighbors G1 u = filter (\<lambda>v. \<not> (u \<in> set Ve \<and> v \<in> set Ve)) (neighbors G u)"
  proof -
    fix u
    have "neighbors G1 u = filter (\<lambda>v. (u, v) \<notin> set es \<and> (v, u) \<notin> set es) (neighbors G u)"
      unfolding G1_def by (rule remove_edges_from_props(3) [OF w])
    also have "\<dots> = filter (\<lambda>v. \<not> (u \<in> set Ve \<and> v \<in> set Ve)) (neighbors G u)"
    proof (rule filter_cong [OF refl])
      fix v assume v: "v \<in> set (neighbors G u)"
      then have "u \<noteq> v" "u \<in> set (neighbors G v)" using nsl sym by auto
      then show "((u, v) \<notin> set es \<and> (v, u) \<notin> set es) = (\<not> (u \<in> set Ve \<and> v \<in> set Ve))"
        using v unfolding es_mem by auto
    qed
    finally show "neighbors G1 u = filter (\<lambda>v. \<not> (u \<in> set Ve \<and> v \<in> set Ve)) (neighbors G u)" .
  qed
  have nsl1: "\<And>u. u \<notin> set (neighbors G1 u)" using nsl by (simp add: nb1)
  have iso_eq: "iso = filter (\<lambda>n. degree G1 n = 0) (nodes G1)"
    unfolding iso_def degree_view_def by (rule concat_map_degree_zero)
  then have iso_nb: "\<forall>n \<in> set iso. neighbors G1 n = []"
    by (auto dest: degree_zero_neighbors)
  have adj2: "\<And>w. adj_of G2 w = adj_of G1 w"
    using remove_isolated_props(1) [OF iso_nb] by (simp add: G2_def)
  have n2: "nodes G2 = filter (\<lambda>n. n \<notin> set iso) (nodes G1)"
    using remove_isolated_props(2) [OF iso_nb] by (simp add: G2_def)
  have nb2: "\<And>u. neighbors G2 u = neighbors G1 u" by (simp add: neighbors_def adj2)
  have w2: "wf_graph G2"
    using w1 unfolding wf_graph_iff nb2 n2 by simp
  have d2: "distinct (nodes G2)" using w2 by (simp add: wf_graph_iff)
  have nl2: "no_self_loops G2" using nsl1 by (simp add: no_self_loops_iff [OF d2] nb2)
  have "sum_list (map (degree G2) (nodes G2)) = sum_list (map (degree G1) (nodes G2))"
    by (rule arg_cong [where f = sum_list]) (simp add: degree_cong [OF adj2])
  also have "\<dots> = sum_list (map (degree G1) (nodes G1))"
    unfolding n2 by (rule sum_list_filter_zero) (simp add: iso_eq)
  finally have e21: "number_of_edges G2 = number_of_edges G1"
    by (simp add: number_of_edges_sum)
  have deg1: "\<And>n. degree G1 n = length (neighbors G1 n)"
    using nsl1 by (simp add: degree_no_self_loop)
  have deg: "\<And>n. degree G n = length (neighbors G n)"
    using nsl by (simp add: degree_no_self_loop)
  have nbn': "nb \<in> set (neighbors G node)" "node \<in> set (neighbors G nb)"
    using nbr sym [of nb node] by simp_all
  have nb_node: "nb \<in> set (nodes G)" using nbn'(2) by (rule neighbors_in_nodes)
  have "sum_list (map (\<lambda>n. length (neighbors G1 n)) (nodes G)) + 2
        \<le> sum_list (map (\<lambda>n. length (neighbors G n)) (nodes G))"
  proof (rule sum_list_two_less [OF dn nn nb_node nbn [symmetric]])
    show "\<And>x. length (neighbors G1 x) \<le> length (neighbors G x)" by (simp add: nb1)
    show "length (neighbors G1 node) < length (neighbors G node)"
      unfolding nb1 using nbn'(1) in_Ve by (intro length_filter_less [of nb]) simp_all
    show "length (neighbors G1 nb) < length (neighbors G nb)"
      unfolding nb1 using nbn'(2) in_Ve by (intro length_filter_less [of node]) simp_all
  qed
  then have "number_of_edges G1 < number_of_edges G"
    unfolding number_of_edges_sum n1 deg deg1 by linarith
  then have less: "number_of_edges G2 < number_of_edges G" using e21 by simp
  have k2: "set (nodes G2) \<subseteq> fst ` set n2h'"
    using k unfolding keys n2 n1 by auto
  have cov: "\<forall>u v. v \<in> set (neighbors G u) \<longrightarrow>
      v \<in> set (neighbors G2 u) \<or> (u \<in> set Ve \<and> v \<in> set Ve)"
    by (auto simp: nb2 nb1)
  show ?thesis using round w2 nl2 less k2 cov by blast
qed

subsection \<open>The main loop returns and covers every edge\<close>

lemma no_edges_no_neighbors:
  "wf_graph G \<Longrightarrow> number_of_edges G = 0 \<Longrightarrow> v \<notin> set (neighbors G u)"
  using number_of_edges_pos [of G v u] by auto

lemma fhs_loop_covers:
  "wf_graph G \<Longrightarrow> no_self_loops G \<Longrightarrow> 2 \<le> m_max \<Longrightarrow> number_of_edges G \<le> fuel \<Longrightarrow>
   set (nodes G) \<subseteq> fst ` set n2h \<Longrightarrow>
   \<exists>G' hs' n2h'. fhs_loop fuel hash m_max (G, hs, n2h) = Some (Inr (G', hs @ hs', n2h')) \<and>
     (\<forall>u v. v \<in> set (neighbors G u) \<longrightarrow> (\<exists>h \<in> set hs'. u \<in> set h \<and> v \<in> set h))"
proof (induction fuel arbitrary: G hs n2h)
  case 0
  then have z: "number_of_edges G = 0" by simp
  then have "fhs_loop 0 hash m_max (G, hs, n2h) = Some (Inr (G, hs @ [], n2h))" by simp
  then show ?case using no_edges_no_neighbors [OF "0.prems"(1) z] by blast
next
  case (Suc fuel)
  show ?case
  proof (cases "number_of_edges G = 0")
    case True
    then have "fhs_loop (Suc fuel) hash m_max (G, hs, n2h) = Some (Inr (G, hs @ [], n2h))"
      by simp
    then show ?thesis using no_edges_no_neighbors [OF Suc.prems(1) True] by blast
  next
    case False
    then have pos: "0 < number_of_edges G" by simp
    then have nn: "number_of_nodes G \<noteq> 0"
      using number_of_edges_pos_nodes [OF pos] by (auto simp: number_of_nodes_def degree_view_def nodes_def)
    obtain G2 Ve n2h2 where r: "fhs_round hash m_max (G, hs, n2h) = Continue (G2, hs @ [Ve], n2h2)"
      and w2: "wf_graph G2" and nl2: "no_self_loops G2"
      and less: "number_of_edges G2 < number_of_edges G"
      and k2: "set (nodes G2) \<subseteq> fst ` set n2h2"
      and cov: "\<forall>u v. v \<in> set (neighbors G u) \<longrightarrow>
                  v \<in> set (neighbors G2 u) \<or> (u \<in> set Ve \<and> v \<in> set Ve)"
      using fhs_round_progress [OF Suc.prems(1,2,3) pos Suc.prems(5)] by blast
    have f: "number_of_edges G2 \<le> fuel" using less Suc.prems(4) by simp
    obtain G' hs' n2h' where
      l: "fhs_loop fuel hash m_max (G2, hs @ [Ve], n2h2) = Some (Inr (G', (hs @ [Ve]) @ hs', n2h'))"
      and c: "\<forall>u v. v \<in> set (neighbors G2 u) \<longrightarrow> (\<exists>h \<in> set hs'. u \<in> set h \<and> v \<in> set h)"
      using Suc.IH [OF w2 nl2 Suc.prems(3) f k2] by blast
    have "fhs_loop (Suc fuel) hash m_max (G, hs, n2h) = Some (Inr (G', hs @ (Ve # hs'), n2h'))"
      using pos nn r l by simp
    moreover have "\<forall>u v. v \<in> set (neighbors G u) \<longrightarrow>
        (\<exists>h \<in> set (Ve # hs'). u \<in> set h \<and> v \<in> set h)"
      using cov c by (metis list.set_intros(1,2))
    ultimately show ?thesis by blast
  qed
qed

lemma graph_copy_degree:
  assumes "wf_graph G"
  shows "degree (graph_copy G) n = degree G n"
proof -
  have s: "set (neighbors (graph_copy G) n) = set (neighbors G n)"
    using graph_copy_props(3) [OF assms] .
  have "distinct (neighbors (graph_copy G) n)" "distinct (neighbors G n)"
    using graph_copy_props(1) [OF assms] assms by (simp_all add: wf_graph_iff)
  then have "length (neighbors (graph_copy G) n) = length (neighbors G n)"
    using s by (metis distinct_card)
  then show ?thesis using s by (simp add: degree_def neighbors_def)
qed

lemma graph_copy_number_of_edges:
  "wf_graph G \<Longrightarrow> number_of_edges (graph_copy G) = number_of_edges G"
proof -
  assume w: "wf_graph G"
  have eq: "map (degree (graph_copy G)) (nodes G) = map (degree G) (nodes G)"
    by (simp add: graph_copy_degree [OF w])
  show ?thesis unfolding number_of_edges_sum graph_copy_props(2) [OF w] eq ..
qed

lemma graph_copy_no_self_loops:
  assumes "wf_graph G" "no_self_loops G"
  shows "no_self_loops (graph_copy G)"
proof -
  have d: "distinct (nodes G)" "distinct (nodes (graph_copy G))"
    using graph_copy_props(1) [OF assms(1)] assms(1) by (simp_all add: wf_graph_iff)
  show ?thesis
    using assms(2) unfolding no_self_loops_iff [OF d(1)] no_self_loops_iff [OF d(2)]
      graph_copy_props(3) [OF assms(1)] .
qed

text \<open>
  Claim C1 (FHS edge coverage), as amended. For every graph without self-loops and every
  \<open>m_max \<ge> 2\<close>, \<^verbatim>\<open>create_fhs\<close> returns when its main loop may run as many rounds as the
  graph has edges, and every edge of the input graph has both endpoints together in at least
  one of the hyperedges it returns.
\<close>

theorem fhs_edge_coverage:
  assumes "wf_graph G" and "no_self_loops G" and "2 \<le> m_max" and "number_of_edges G \<le> fuel"
  shows "\<exists>hyperedges n2h caps.
           create_fhs fuel hash G m_max use_edge_capacity = Some (Inr (hyperedges, n2h, caps)) \<and>
           (\<forall>u v. v \<in> set (neighbors G u) \<longrightarrow>
                  (\<exists>h \<in> set hyperedges. u \<in> set h \<and> v \<in> set h))"
proof -
  let ?C = "graph_copy G" and ?n = "map (\<lambda>n. (n, [])) (nodes G)"
  have w: "wf_graph ?C" using assms(1) by (rule graph_copy_props(1))
  have nl: "no_self_loops ?C" using assms(1,2) by (rule graph_copy_no_self_loops)
  have f: "number_of_edges ?C \<le> fuel" using assms(1,4) by (simp add: graph_copy_number_of_edges)
  have k: "set (nodes ?C) \<subseteq> fst ` set ?n"
    by (simp add: graph_copy_props(2) [OF assms(1)] image_image)
  obtain G' hs' n2h' where
    l: "fhs_loop fuel hash m_max (?C, [], ?n) = Some (Inr (G', [] @ hs', n2h'))"
    and c: "\<forall>u v. v \<in> set (neighbors ?C u) \<longrightarrow> (\<exists>h \<in> set hs'. u \<in> set h \<and> v \<in> set h)"
    using fhs_loop_covers [OF w nl assms(3) f k] by blast
  have "\<exists>caps. create_fhs fuel hash G m_max use_edge_capacity = Some (Inr (hs', n2h', caps))"
    using l by (simp add: create_fhs_def Let_def)
  moreover have "\<forall>u v. v \<in> set (neighbors G u) \<longrightarrow> (\<exists>h \<in> set hs'. u \<in> set h \<and> v \<in> set h)"
    using c by (simp add: graph_copy_props(3) [OF assms(1)])
  ultimately show ?thesis by blast
qed

text \<open>The hypotheses hold on the four-edge graph of the two-hyperedge example.\<close>

theorem fhs_edge_coverage_witness:
  "wf_graph (edges_df_to_nx [(1::nat, 2), (1, 3), (1, 4), (2, 4)]) \<and>
   no_self_loops (edges_df_to_nx [(1::nat, 2), (1, 3), (1, 4), (2, 4)]) \<and>
   (2::int) \<le> 3 \<and>
   number_of_edges (edges_df_to_nx [(1::nat, 2), (1, 3), (1, 4), (2, 4)]) \<le> 4 \<and>
   (\<exists>hyperedges n2h caps.
      create_fhs 4 int (edges_df_to_nx [(1::nat, 2), (1, 3), (1, 4), (2, 4)]) 3 False =
        Some (Inr (hyperedges, n2h, caps)) \<and>
      (\<forall>u v. v \<in> set (neighbors (edges_df_to_nx [(1::nat, 2), (1, 3), (1, 4), (2, 4)]) u) \<longrightarrow>
             (\<exists>h \<in> set hyperedges. u \<in> set h \<and> v \<in> set h)))"
proof -
  have h: "wf_graph (edges_df_to_nx [(1::nat, 2), (1, 3), (1, 4), (2, 4)])"
    "no_self_loops (edges_df_to_nx [(1::nat, 2), (1, 3), (1, 4), (2, 4)])"
    "(2::int) \<le> 3"
    "number_of_edges (edges_df_to_nx [(1::nat, 2), (1, 3), (1, 4), (2, 4)]) \<le> 4"
    by code_simp+
  show ?thesis using h fhs_edge_coverage [OF h, of int False] by blast
qed

section \<open>FHS and the caller's graph\<close>

text \<open>
  Python variables hold references to graph objects, and the methods of
  \<^verbatim>\<open>networkx.Graph\<close> change the object in place. To see which object \<^verbatim>\<open>create_fhs\<close> changes,
  graphs live in a store, a list of graph objects addressed by position:
  \<^verbatim>\<open>G_input.copy()\<close> allocates a new object, and \<^verbatim>\<open>G.remove_edges_from\<close> and
  \<^verbatim>\<open>G.remove_nodes_from\<close> overwrite the object at the address held by \<^verbatim>\<open>G\<close>.
\<close>

type_synonym 'a store = "'a graph list"

definition copy_st :: "'a store \<Rightarrow> nat \<Rightarrow> nat \<times> 'a store" where
  "copy_st store a = (length store, store @ [graph_copy (store ! a)])"

definition remove_edges_from_st :: "'a store \<Rightarrow> nat \<Rightarrow> ('a \<times> 'a) list \<Rightarrow> 'a store" where
  "remove_edges_from_st store g ebunch = store[g := remove_edges_from (store ! g) ebunch]"

definition remove_nodes_from_st :: "'a store \<Rightarrow> nat \<Rightarrow> 'a list \<Rightarrow> 'a store" where
  "remove_nodes_from_st store g ns = store[g := remove_nodes_from (store ! g) ns]"

type_synonym 'a fhs_state_st = "'a store \<times> 'a list list \<times> 'a membership"

text \<open>The round and the loop of \<^verbatim>\<open>create_fhs\<close> again, on the object at address \<open>g\<close>.\<close>

definition fhs_round_st ::
  "('a::linorder \<Rightarrow> int) \<Rightarrow> int \<Rightarrow> nat \<Rightarrow> 'a fhs_state_st \<Rightarrow> 'a fhs_state_st step" where
  "fhs_round_st hash m_max g st =
     (case st of (store, hyperedges, node_to_hyperedges) \<Rightarrow>
        (case py_max (\<lambda>n. (degree (store ! g) n, - hash n)) (nodes (store ! g)) of
           Inl e \<Rightarrow> Raise e
         | Inr node \<Rightarrow>
             let Ve_list = bfs_collect_m (store ! g) node m_max;
                 Ve_set = remdups Ve_list
             in if length Ve_set = 0 then Break st
                else
                  let hed_idx = length hyperedges;
                      hyperedges' = hyperedges @ [Ve_set]
                  in (case append_index hed_idx Ve_set node_to_hyperedges of
                        Inl e \<Rightarrow> Raise e
                      | Inr node_to_hyperedges' \<Rightarrow>
                          let internal_edges =
                                [(u, v). u \<leftarrow> Ve_set, v \<leftarrow> neighbors (store ! g) u,
                                         v \<in> set Ve_set \<and> u < v];
                              store1 = remove_edges_from_st store g internal_edges;
                              isolated = [n. (n, d) \<leftarrow> degree_view (store1 ! g), d = 0];
                              store2 = (if isolated \<noteq> []
                                        then remove_nodes_from_st store1 g isolated else store1)
                          in Continue (store2, hyperedges', node_to_hyperedges'))))"

fun fhs_loop_st ::
  "nat \<Rightarrow> ('a::linorder \<Rightarrow> int) \<Rightarrow> int \<Rightarrow> nat \<Rightarrow> 'a fhs_state_st \<Rightarrow>
     (error + 'a fhs_state_st) option" where
  "fhs_loop_st fuel hash m_max g (store, hyperedges, n2h) =
     (if number_of_edges (store ! g) > 0 then
        (if number_of_nodes (store ! g) = 0 then Some (Inr (store, hyperedges, n2h))
         else (case fuel of
                 0 \<Rightarrow> None
               | Suc fuel' \<Rightarrow>
                   (case fhs_round_st hash m_max g (store, hyperedges, n2h) of
                      Raise e \<Rightarrow> Some (Inl e)
                    | Break st \<Rightarrow> Some (Inr st)
                    | Continue st \<Rightarrow> fhs_loop_st fuel' hash m_max g st)))
      else Some (Inr (store, hyperedges, n2h)))"

text \<open>
  \<^verbatim>\<open>create_fhs\<close> called with the address \<open>a\<close> of the caller's graph. It returns the store
  it leaves behind, next to its result.
\<close>

definition create_fhs_st ::
  "nat \<Rightarrow> ('a::linorder \<Rightarrow> int) \<Rightarrow> 'a store \<Rightarrow> nat \<Rightarrow> int \<Rightarrow> bool \<Rightarrow>
     (error + 'a store \<times> 'a list list \<times> 'a membership \<times> 'a allocation) option" where
  "create_fhs_st fuel hash store a m_max use_edge_capacity =
     (case copy_st store a of (g, store0) \<Rightarrow>
        let node_to_hyperedges = map (\<lambda>n. (n, [])) (nodes (store0 ! a))
        in case fhs_loop_st fuel hash m_max g (store0, [], node_to_hyperedges) of
             None \<Rightarrow> None
           | Some (Inl e) \<Rightarrow> Some (Inl e)
           | Some (Inr (store', hyperedges, n2h)) \<Rightarrow>
               let has_capacity_attr = list_ex (\<lambda>(u, v, d). d \<noteq> None) (edges_data (store' ! a));
                   node_capacity_in_hyperedge =
                     (if use_edge_capacity then
                        (if has_capacity_attr then split_evenly (node_total (store' ! a)) n2h
                         else split_evenly (\<lambda>v. 1) n2h)
                      else [])
               in Some (Inr (store', hyperedges, n2h, node_capacity_in_hyperedge)))"

definition in_store :: "nat \<Rightarrow> 'a store \<Rightarrow> 'a fhs_state \<Rightarrow> 'a fhs_state_st" where
  "in_store g store st = (case st of (G, hyperedges, n2h) \<Rightarrow> (store[g := G], hyperedges, n2h))"

lemma fhs_round_st_eq:
  assumes "g < length store"
  shows "fhs_round_st hash m_max g (store, hs, n2h) =
           map_step (in_store g store) (fhs_round hash m_max (store ! g, hs, n2h))"
  using assms
  by (simp add: fhs_round_st_def fhs_round_def in_store_def Let_def remove_edges_from_st_def
      remove_nodes_from_st_def split: sum.splits)

lemma fhs_loop_st_eq:
  "g < length store \<Longrightarrow>
   fhs_loop_st fuel hash m_max g (store, hs, n2h) =
     map_option (map_sum id (in_store g store)) (fhs_loop fuel hash m_max (store ! g, hs, n2h))"
proof (induction fuel arbitrary: store hs n2h)
  case 0
  then show ?case by (simp add: in_store_def)
next
  case (Suc fuel)
  show ?case
  proof (cases "fhs_round hash m_max (store ! g, hs, n2h)")
    case (Continue st)
    obtain G2 hs2 n2 where st: "st = (G2, hs2, n2)" by (cases st)
    have l: "g < length (store[g := G2])" using Suc.prems by simp
    have "in_store g (store[g := G2]) = in_store g store"
      by (rule ext) (simp add: in_store_def split: prod.splits)
    then show ?thesis
      using Suc.IH [OF l, of hs2 n2] Suc.prems Continue st fhs_round_st_eq [OF Suc.prems, of hash m_max hs n2h]
      by (simp add: in_store_def)
  next
    case (Break st)
    then show ?thesis
      using Suc.prems fhs_round_st_eq [OF Suc.prems, of hash m_max hs n2h]
      by (simp add: in_store_def)
  next
    case (Raise e)
    then show ?thesis
      using Suc.prems fhs_round_st_eq [OF Suc.prems, of hash m_max hs n2h]
      by (simp add: in_store_def)
  qed
qed

text \<open>
  Claim C9 (FHS mutates the caller's graph), as amended. \<^verbatim>\<open>create_fhs\<close> changes no graph
  object that existed when it was called: when it returns, the caller's graph at address
  \<open>a\<close> and every other object of the old store are as they were, the only new object is the
  working copy, and the result is the one computed from the unchanged input graph.
\<close>

theorem create_fhs_leaves_input_graph:
  assumes "a < length store"
    and "create_fhs_st fuel hash store a m_max use_edge_capacity = Some (Inr (store', result))"
  shows "store' ! a = store ! a \<and> take (length store) store' = store \<and>
         create_fhs fuel hash (store ! a) m_max use_edge_capacity = Some (Inr result)"
proof -
  let ?s0 = "store @ [graph_copy (store ! a)]" and ?g = "length store"
  let ?n = "map (\<lambda>n. (n, [])) (nodes (store ! a))"
  have g: "?g < length ?s0" by simp
  have a0: "?s0 ! a = store ! a" using assms(1) by (simp add: nth_append)
  have l: "fhs_loop_st fuel hash m_max ?g (?s0, [], ?n) =
      map_option (map_sum id (in_store ?g ?s0)) (fhs_loop fuel hash m_max (graph_copy (store ! a), [], ?n))"
    using fhs_loop_st_eq [OF g, of fuel hash m_max "[]" ?n]
    by (simp del: fhs_loop_st.simps fhs_loop.simps)
  show ?thesis
  proof (cases "fhs_loop fuel hash m_max (graph_copy (store ! a), [], ?n)")
    case None
    then show ?thesis using assms(2) l by (simp add: create_fhs_st_def copy_st_def a0 del: fhs_loop_st.simps fhs_loop.simps)
  next
    case (Some r)
    show ?thesis
    proof (cases r)
      case (Inl e)
      then show ?thesis using assms(2) l Some by (simp add: create_fhs_st_def copy_st_def a0 del: fhs_loop_st.simps fhs_loop.simps)
    next
      case (Inr st)
      obtain G' hs' n2h' where st: "st = (G', hs', n2h')" by (cases st)
      have s': "store' = ?s0[?g := G']"
        using assms(2) l Some Inr st
        by (simp add: create_fhs_st_def copy_st_def a0 in_store_def Let_def
            del: fhs_loop_st.simps fhs_loop.simps)
      then have 1: "store' ! a = store ! a" "take (length store) store' = store"
        using assms(1) by (simp_all add: nth_append)
      have a1: "(store @ [G']) ! a = store ! a" using assms(1) by (simp add: nth_append)
      have "create_fhs fuel hash (store ! a) m_max use_edge_capacity = Some (Inr result)"
        using assms(2) l Some Inr st
        by (auto simp add: create_fhs_st_def copy_st_def a0 a1 in_store_def Let_def create_fhs_def
            simp del: fhs_loop_st.simps fhs_loop.simps)
      then show ?thesis using 1 by simp
    qed
  qed
qed

text \<open>
  Claim C9 as stated fails: after \<^verbatim>\<open>create_fhs\<close> has produced two hyperedges from the
  four-edge graph, the object at address 0 is still that graph with its four edges; the
  object that lost every edge and node is the copy at address 1.
\<close>

theorem fhs_input_graph_unchanged:
  "create_fhs_st 2 int [edges_df_to_nx [(1::nat, 2), (1, 3), (1, 4), (2, 4)]] 0 3 False =
     Some (Inr ([edges_df_to_nx [(1::nat, 2), (1, 3), (1, 4), (2, 4)], []],
                [[1, 2, 3], [4, 1, 2]], [(1, [0, 1]), (2, [0, 1]), (3, [0]), (4, [1])], [])) \<and>
   number_of_edges (edges_df_to_nx [(1::nat, 2), (1, 3), (1, 4), (2, 4)]) = 4"
  by code_simp

text \<open>The hypotheses hold for a store that holds the four-edge graph alone.\<close>

theorem create_fhs_leaves_input_graph_witness:
  "(0::nat) < length [edges_df_to_nx [(1::nat, 2), (1, 3), (1, 4), (2, 4)]] \<and>
   create_fhs_st 2 int [edges_df_to_nx [(1::nat, 2), (1, 3), (1, 4), (2, 4)]] 0 3 False =
     Some (Inr ([edges_df_to_nx [(1::nat, 2), (1, 3), (1, 4), (2, 4)], []],
                [[1, 2, 3], [4, 1, 2]], [(1, [0, 1]), (2, [0, 1]), (3, [0]), (4, [1])], [])) \<and>
   [edges_df_to_nx [(1::nat, 2), (1, 3), (1, 4), (2, 4)], []] ! 0 =
     [edges_df_to_nx [(1::nat, 2), (1, 3), (1, 4), (2, 4)]] ! 0 \<and>
   create_fhs 2 int ([edges_df_to_nx [(1::nat, 2), (1, 3), (1, 4), (2, 4)]] ! 0) 3 False =
     Some (Inr ([[1, 2, 3], [4, 1, 2]], [(1, [0, 1]), (2, [0, 1]), (3, [0]), (4, [1])], []))"
proof -
  have h: "(0::nat) < length [edges_df_to_nx [(1::nat, 2), (1, 3), (1, 4), (2, 4)]]"
    by simp
  have r: "create_fhs_st 2 int [edges_df_to_nx [(1::nat, 2), (1, 3), (1, 4), (2, 4)]] 0 3 False =
     Some (Inr ([edges_df_to_nx [(1::nat, 2), (1, 3), (1, 4), (2, 4)], []],
                [[1, 2, 3], [4, 1, 2]], [(1, [0, 1]), (2, [0, 1]), (3, [0]), (4, [1])], []))"
    by code_simp
  show ?thesis using h r create_fhs_leaves_input_graph [OF h r] by simp
qed

section \<open>The other builders (topologies/utils.py, topologies/supernodes.py, topologies/nch.py)\<close>

text \<open>
  Several values of the builders are Python sets, which iterate in the order of their hash
  slots. The model iterates a set built from a list in ascending order of a slot function
  \<open>slot\<close>, a parameter: the identity for small non-negative integers. Where only
  membership is asked, a set is a HOL set.
\<close>

definition set_iter :: "('a \<Rightarrow> nat) \<Rightarrow> 'a list \<Rightarrow> 'a list" where
  "set_iter slot xs = sort_key slot (remdups xs)"

lemma set_set_iter [simp]: "set (set_iter slot xs) = set xs"
  by (simp add: set_iter_def)

text \<open>
  \<^verbatim>\<open>two_hop_nodes(n)\<close>: breadth-first search to depth 2 over
  \<^verbatim>\<open>neigh[cur] = set(G.neighbors(cur))\<close>; the queue holds pairs of a node and its depth.
\<close>

fun two_hop_visit ::
  "nat \<Rightarrow> 'a list \<Rightarrow> 'a set \<times> ('a \<times> nat) list \<Rightarrow> 'a set \<times> ('a \<times> nat) list" where
  "two_hop_visit d [] (visited, q) = (visited, q)"
| "two_hop_visit d (nb # nbs) (visited, q) =
     (if nb \<notin> visited then two_hop_visit d nbs (insert nb visited, q @ [(nb, d + 1)])
      else two_hop_visit d nbs (visited, q))"

lemma two_hop_visit_measure:
  assumes "finite U" "set nbs \<subseteq> U" and "two_hop_visit d nbs (visited, q) = (visited', q')"
  shows "2 * card (U - visited') + length q' \<le> 2 * card (U - visited) + length q"
  using assms(2,3)
proof (induction nbs arbitrary: visited q)
  case Nil then show ?case by simp
next
  case (Cons nb nbs)
  show ?case
  proof (cases "nb \<in> visited")
    case True then show ?thesis using Cons by simp
  next
    case False
    have "nb \<in> U - visited" using False Cons.prems(1) by simp
    then have c: "card (U - insert nb visited) < card (U - visited)"
      using assms(1) by (intro psubset_card_mono) auto
    have "two_hop_visit d nbs (insert nb visited, q @ [(nb, d + 1)]) = (visited', q')"
      using False Cons.prems(2) by simp
    from Cons.IH [OF _ this] Cons.prems(1) c show ?thesis by simp
  qed
qed

function two_hop_loop ::
  "('a \<Rightarrow> nat) \<Rightarrow> 'a graph \<Rightarrow> 'a set \<times> ('a \<times> nat) list \<Rightarrow> 'a set" where
  "two_hop_loop slot G (visited, q) =
     (case q of
        [] \<Rightarrow> visited
      | (cur, d) # q' \<Rightarrow>
          if d \<ge> 2 then two_hop_loop slot G (visited, q')
          else two_hop_loop slot G
                 (two_hop_visit d (set_iter slot (neighbors G cur)) (visited, q')))"
  by pat_completeness auto
termination
proof (relation "measure (\<lambda>(slot, G, visited, q). 2 * card (all_nodes G - visited) + length q)")
  show "wf (measure (\<lambda>(slot, G, visited, q). 2 * card (all_nodes G - visited) + length q))"
    by simp
next
  fix slot :: "'a \<Rightarrow> nat" and G :: "'a graph" and visited :: "'a set"
    and q q' :: "('a \<times> nat) list" and x :: "'a \<times> nat" and cur :: 'a and d :: nat
  assume "q = x # q'" "(cur, d) = x" "2 \<le> d"
  then show "((slot, G, visited, q'), slot, G, visited, q)
      \<in> measure (\<lambda>(slot, G, visited, q). 2 * card (all_nodes G - visited) + length q)"
    by simp
next
  fix slot :: "'a \<Rightarrow> nat" and G :: "'a graph" and visited :: "'a set"
    and q q' :: "('a \<times> nat) list" and x :: "'a \<times> nat" and cur :: 'a and d :: nat
  assume q: "q = x # q'" "(cur, d) = x"
  obtain v' q'' where r:
    "two_hop_visit d (set_iter slot (neighbors G cur)) (visited, q') = (v', q'')"
    by (cases "two_hop_visit d (set_iter slot (neighbors G cur)) (visited, q')")
  have "set (set_iter slot (neighbors G cur)) \<subseteq> all_nodes G"
    using neighbors_subset_all_nodes [of G cur] by simp
  then have "2 * card (all_nodes G - v') + length q'' \<le> 2 * card (all_nodes G - visited) + length q'"
    using two_hop_visit_measure [OF finite_all_nodes _ r] by blast
  then show "((slot, G, two_hop_visit d (set_iter slot (neighbors G cur)) (visited, q')),
        slot, G, visited, q)
      \<in> measure (\<lambda>(slot, G, visited, q). 2 * card (all_nodes G - visited) + length q)"
    using q r by simp
qed

definition two_hop_nodes :: "('a \<Rightarrow> nat) \<Rightarrow> 'a graph \<Rightarrow> 'a \<Rightarrow> 'a set" where
  "two_hop_nodes slot G n = two_hop_loop slot G ({n}, [(n, 0)])"

text \<open>
  \<^verbatim>\<open>exists_monotone_path\<close>. \<open>emp_visit\<close> is the loop over \<^verbatim>\<open>neigh[cur]\<close>: \<open>None\<close> is its
  \<^verbatim>\<open>return True\<close>. \<open>emp_loop\<close> is the \<^verbatim>\<open>while q\<close> loop, which gives up once
  \<^verbatim>\<open>states_explored\<close> exceeds \<^verbatim>\<open>max_states_local\<close>.
\<close>

type_synonym 'a emp_queue = "('a \<times> int option \<times> int) list"

fun emp_visit ::
  "'a \<Rightarrow> 'a set \<Rightarrow> ('a \<Rightarrow> int) \<Rightarrow> int option \<Rightarrow> int \<Rightarrow> 'a list \<Rightarrow>
     'a emp_queue \<times> ('a \<times> int) set \<Rightarrow> ('a emp_queue \<times> ('a \<times> int) set) option" where
  "emp_visit v Vn_set id_of prev depth [] (q, seen_states) = Some (q, seen_states)"
| "emp_visit v Vn_set id_of prev depth (nb # nbs) (q, seen_states) =
     (if nb \<notin> Vn_set then emp_visit v Vn_set id_of prev depth nbs (q, seen_states)
      else if nb = v then None
      else if (case prev of None \<Rightarrow> True | Some p \<Rightarrow> p > id_of nb) then
        (if (nb, id_of nb) \<in> seen_states
         then emp_visit v Vn_set id_of prev depth nbs (q, seen_states)
         else emp_visit v Vn_set id_of prev depth nbs
                (q @ [(nb, Some (id_of nb), depth + 1)], insert (nb, id_of nb) seen_states))
      else emp_visit v Vn_set id_of prev depth nbs (q, seen_states))"

function emp_loop ::
  "('a \<Rightarrow> nat) \<Rightarrow> 'a graph \<Rightarrow> 'a \<Rightarrow> 'a set \<Rightarrow> ('a \<Rightarrow> int) \<Rightarrow> int \<Rightarrow> int \<Rightarrow>
     'a emp_queue \<times> ('a \<times> int) set \<times> int \<Rightarrow> bool" where
  "emp_loop slot G v Vn_set id_of max_depth max_states (q, seen_states, states_explored) =
     (case q of
        [] \<Rightarrow> False
      | (cur, prev, depth) # q' \<Rightarrow>
          if states_explored + 1 > max_states then False
          else if depth \<ge> max_depth
          then emp_loop slot G v Vn_set id_of max_depth max_states
                 (q', seen_states, states_explored + 1)
          else (case emp_visit v Vn_set id_of prev depth (set_iter slot (neighbors G cur))
                       (q', seen_states) of
                  None \<Rightarrow> True
                | Some (q'', seen') \<Rightarrow>
                    emp_loop slot G v Vn_set id_of max_depth max_states
                      (q'', seen', states_explored + 1)))"
  by pat_completeness auto
termination
  by (relation "measure (\<lambda>(slot, G, v, Vn_set, id_of, max_depth, max_states, q, seen, n).
                   nat (max_states - n))") auto

definition exists_monotone_path ::
  "('a \<Rightarrow> nat) \<Rightarrow> 'a graph \<Rightarrow> ('a \<Rightarrow> int) \<Rightarrow> 'a \<Rightarrow> 'a \<Rightarrow> 'a set \<Rightarrow> int \<Rightarrow> int \<Rightarrow> bool" where
  "exists_monotone_path slot G id_of u v Vn_set max_depth max_states_local =
     (if u = v then True
      else if u \<notin> Vn_set \<or> v \<notin> Vn_set then False
      else emp_loop slot G v Vn_set id_of max_depth max_states_local ([(u, None, 0)], {}, 0))"

text \<open>
  \<^verbatim>\<open>select_supernodes\<close>. \<^verbatim>\<open>id_map\<close> gives \<^verbatim>\<open>int(n)\<close>, or the position of \<open>n\<close> in the node
  list when the conversion raises (\<open>to_int n = None\<close>), and is read with
  \<^verbatim>\<open>id_map.get(nb, 0)\<close>. The two nested \<^verbatim>\<open>for\<close> loops over the pairs of neighbours are
  \<open>pair_j\<close> and \<open>pair_i\<close>, which return the flag \<^verbatim>\<open>removed\<close>. The result is the set \<open>S\<close>
  in its iteration order.
\<close>

definition id_map :: "('a \<Rightarrow> int option) \<Rightarrow> 'a list \<Rightarrow> 'a \<Rightarrow> int" where
  "id_map to_int node_list nb =
     (case map_of (map (\<lambda>(i, n). (n, case to_int n of Some k \<Rightarrow> k | None \<Rightarrow> int i))
                     (enumerate 0 node_list)) nb of
        None \<Rightarrow> 0
      | Some k \<Rightarrow> k)"

fun pair_j ::
  "('a \<Rightarrow> nat) \<Rightarrow> 'a graph \<Rightarrow> ('a \<Rightarrow> int) \<Rightarrow> 'a set \<Rightarrow> int \<Rightarrow> int \<Rightarrow> 'a \<Rightarrow> 'a list \<Rightarrow> bool" where
  "pair_j slot G id_of Vn max_search_depth max_states u [] = False"
| "pair_j slot G id_of Vn max_search_depth max_states u (v # vs) =
     (if v \<in> set (neighbors G u) then True
      else if u \<notin> Vn \<or> v \<notin> Vn then pair_j slot G id_of Vn max_search_depth max_states u vs
      else if exists_monotone_path slot G id_of u v Vn max_search_depth max_states then True
      else pair_j slot G id_of Vn max_search_depth max_states u vs)"

fun pair_i ::
  "('a \<Rightarrow> nat) \<Rightarrow> 'a graph \<Rightarrow> ('a \<Rightarrow> int) \<Rightarrow> 'a set \<Rightarrow> int \<Rightarrow> int \<Rightarrow> 'a list \<Rightarrow> bool" where
  "pair_i slot G id_of Vn max_search_depth max_states [] = False"
| "pair_i slot G id_of Vn max_search_depth max_states (u # rest) =
     (if pair_j slot G id_of Vn max_search_depth max_states u rest then True
      else pair_i slot G id_of Vn max_search_depth max_states rest)"

definition select_supernodes ::
  "('a \<Rightarrow> nat) \<Rightarrow> ('a \<Rightarrow> int option) \<Rightarrow> 'a graph \<Rightarrow> int \<Rightarrow> int \<Rightarrow> 'a list" where
  "select_supernodes slot to_int G max_search_depth max_states =
     foldl (\<lambda>S n.
              let Vn = two_hop_nodes slot G n;
                  NGn_list = set_iter slot (neighbors G n)
              in if pair_i slot G (id_map to_int (nodes G)) Vn max_search_depth max_states NGn_list
                 then removeAll n S else S)
       (set_iter slot (nodes G)) (nodes G)"

text \<open>
  \<^verbatim>\<open>create_supernode_hyperedges\<close>: the hyperedge of the supernode at position \<open>i\<close> of
  \<^verbatim>\<open>enumerate(S)\<close> is recorded under the index \<open>i\<close>; a supernode without neighbours is
  skipped. The capacities are \<^verbatim>\<open>1.0/len(idxs)\<close>.
\<close>

fun supernode_loop ::
  "('a \<Rightarrow> nat) \<Rightarrow> 'a graph \<Rightarrow> (nat \<times> 'a) list \<Rightarrow> 'a list list \<times> 'a membership \<Rightarrow>
     error + 'a list list \<times> 'a membership" where
  "supernode_loop slot G [] (hyperedges, n2h) = Inr (hyperedges, n2h)"
| "supernode_loop slot G ((i, s) # rest) (hyperedges, n2h) =
     (let hed = set_iter slot (neighbors G s)
      in if hed = [] then supernode_loop slot G rest (hyperedges, n2h)
         else (case append_index i hed n2h of
                 Inl e \<Rightarrow> Inl e
               | Inr n2h' \<Rightarrow> supernode_loop slot G rest (hyperedges @ [hed], n2h')))"

definition create_supernode_hyperedges ::
  "('a \<Rightarrow> nat) \<Rightarrow> ('a \<Rightarrow> int option) \<Rightarrow> 'a graph \<Rightarrow>
     error + 'a list list \<times> 'a membership \<times> 'a allocation" where
  "create_supernode_hyperedges slot to_int G =
     (let S = select_supernodes slot to_int G 4 5000
      in case supernode_loop slot G (enumerate 0 S) ([], map (\<lambda>n. (n, [])) (nodes G)) of
           Inl e \<Rightarrow> Inl e
         | Inr (hyperedges, node_to_hyperedges) \<Rightarrow>
             Inr (hyperedges, node_to_hyperedges, split_evenly (\<lambda>v. 1) node_to_hyperedges))"

text \<open>\<^verbatim>\<open>create_lnrollup_hyperedges\<close>: one hyperedge of all nodes.\<close>

definition create_lnrollup_hyperedges ::
  "('a \<Rightarrow> nat) \<Rightarrow> 'a graph \<Rightarrow> 'a list list \<times> 'a membership \<times> 'a allocation" where
  "create_lnrollup_hyperedges slot G =
     ([set_iter slot (nodes G)], map (\<lambda>n. (n, [0])) (nodes G), map (\<lambda>n. ((n, 0), 1)) (nodes G))"

text \<open>
  The membership-index invariant: every index in a node's list is a position of the
  hyperedge sequence, the node is a member of the hyperedge there, and no index is repeated.
\<close>

definition membership_consistent :: "'a list list \<Rightarrow> 'a membership \<Rightarrow> bool" where
  "membership_consistent hyperedges n2h =
     list_all (\<lambda>(n, idxs). distinct idxs \<and>
                 list_all (\<lambda>i. i < length hyperedges \<and> n \<in> set (hyperedges ! i)) idxs) n2h"

text \<open>
  \<^verbatim>\<open>create_nch\<close>: one hyperedge per cover node, in ascending order of the cover nodes;
  \<^verbatim>\<open>node_to_hyperedges\<close> is a \<^verbatim>\<open>defaultdict(list)\<close>, so a missing key starts from the
  empty list.
\<close>

fun nch_loop ::
  "('a \<Rightarrow> nat) \<Rightarrow> 'a graph \<Rightarrow> (nat \<times> 'a) list \<Rightarrow> 'a list list \<times> 'a membership \<Rightarrow>
     'a list list \<times> 'a membership" where
  "nch_loop slot G [] (hyperedges, n2h) = (hyperedges, n2h)"
| "nch_loop slot G ((idx, c) # rest) (hyperedges, n2h) =
     (let neighs = set_iter slot (neighbors G c)
      in if length neighs = 0 then nch_loop slot G rest (hyperedges, n2h)
         else nch_loop slot G rest
                (hyperedges @ [neighs],
                 foldl (\<lambda>m v. AList.update v
                                 ((case map_of m v of None \<Rightarrow> [] | Some idxs \<Rightarrow> idxs) @ [idx]) m)
                   n2h neighs))"

definition create_nch ::
  "('a::linorder \<Rightarrow> nat) \<Rightarrow> 'a graph \<Rightarrow> int option \<Rightarrow>
     error + 'a list list \<times> 'a membership \<times> 'a allocation" where
  "create_nch slot G max_cover_size =
     (case greedy_vertex_cover G max_cover_size of
        Inl e \<Rightarrow> Inl e
      | Inr cover \<Rightarrow>
          (case nch_loop slot G (enumerate 0 (sort cover)) ([], []) of
             (hyperedges, node_to_hyperedges) \<Rightarrow> Inr (hyperedges, node_to_hyperedges, [])))"

text \<open>
  Claim C5 (membership-index consistency of every builder). The graph has the isolated node
  0 (\<^verbatim>\<open>G.add_node(0)\<close>) and the edge 1-2. All three nodes stay supernodes; node 0 is first
  in \<^verbatim>\<open>enumerate(S)\<close> and is skipped for having no neighbours, so the hyperedges of the
  supernodes 1 and 2 are stored at the positions 0 and 1 but recorded under the indices 1
  and 2: node 1 is given the index 2, which is no position of the sequence, and node 2 the
  index 1, where the hyperedge is \<open>{1}\<close>.
\<close>

theorem supernode_membership_index_off:
  "create_supernode_hyperedges (\<lambda>n. n) (\<lambda>n. Some (int n))
       (add_edge 1 2 None (add_node (0::nat) [])) =
     Inr ([[2], [1]], [(0, []), (1, [2]), (2, [1])], [((1, 2), 1), ((2, 1), 1)]) \<and>
   \<not> membership_consistent [[2], [1::nat]] [(0, []), (1, [2]), (2, [1])] \<and>
   \<not> (2::nat) < length [[2], [1::nat]] \<and> (2::nat) \<notin> set ([[2], [1::nat]] ! 1)"
  by code_simp

text \<open>NCH and the rollup on a triangle with a pendant node, for comparison.\<close>

lemma sample_builders_consistent:
  "create_nch (\<lambda>n. n) (edges_df_to_nx [(1::nat, 2), (1, 3), (2, 3), (3, 4)]) None =
     Inr ([[2, 3], [1, 2, 4]], [(2, [0, 1]), (3, [0]), (1, [1]), (4, [1])], [])"
  "membership_consistent [[2, 3], [1, 2, 4::nat]] [(2, [0, 1]), (3, [0]), (1, [1]), (4, [1])]"
  "create_lnrollup_hyperedges (\<lambda>n. n) (edges_df_to_nx [(1::nat, 2), (1, 3), (2, 3), (3, 4)]) =
     ([[1, 2, 3, 4]], [(1, [0]), (2, [0]), (3, [0]), (4, [0])],
      [((1, 0), 1), ((2, 0), 1), ((3, 0), 1), ((4, 0), 1)])"
  "membership_consistent [[1, 2, 3, 4::nat]] [(1, [0]), (2, [0]), (3, [0]), (4, [0])]"
  by code_simp+

subsection \<open>FHS and the rollup keep the membership-index invariant\<close>

lemma membership_consistent_iff:
  "membership_consistent hs n2h \<longleftrightarrow>
     (\<forall>(n, idxs) \<in> set n2h. distinct idxs \<and> (\<forall>i \<in> set idxs. i < length hs \<and> n \<in> set (hs ! i)))"
  by (auto simp: membership_consistent_def list_all_iff)

lemma rollup_membership_consistent:
  "case create_lnrollup_hyperedges slot G of
     (hyperedges, n2h, caps) \<Rightarrow> membership_consistent hyperedges n2h"
  by (auto simp: create_lnrollup_hyperedges_def membership_consistent_iff)

lemma map_fst_update_mem:
  "k \<in> fst ` set al \<Longrightarrow> map fst (AList.update k v al) = map fst al"
  by (induction al) auto

lemma append_index_map_of:
  "distinct vs \<Longrightarrow> append_index i vs n2h = Inr n2h' \<Longrightarrow>
   map fst n2h' = map fst n2h \<and>
   (\<forall>n. map_of n2h' n =
          (if n \<in> set vs then map_option (\<lambda>l. l @ [i]) (map_of n2h n) else map_of n2h n))"
proof (induction vs arbitrary: n2h)
  case Nil
  then show ?case by simp
next
  case (Cons v vs)
  obtain idxs where s: "map_of n2h v = Some idxs"
    using Cons.prems(2) by (cases "map_of n2h v") auto
  let ?m = "AList.update v (idxs @ [i]) n2h"
  have r: "append_index i vs ?m = Inr n2h'" using Cons.prems(2) s by simp
  have d: "distinct vs" "v \<notin> set vs" using Cons.prems(1) by simp_all
  have "(v, idxs) \<in> set n2h" using s by (rule map_of_SomeD)
  then have k: "v \<in> fst ` set n2h" by force
  have 1: "map fst n2h' = map fst ?m"
    and 2: "\<forall>n. map_of n2h' n =
          (if n \<in> set vs then map_option (\<lambda>l. l @ [i]) (map_of ?m n) else map_of ?m n)"
    using Cons.IH [OF d(1) r] by simp_all
  have "map fst n2h' = map fst n2h" using 1 map_fst_update_mem [OF k] by simp
  moreover have "\<forall>n. map_of n2h' n =
      (if n \<in> set (v # vs) then map_option (\<lambda>l. l @ [i]) (map_of n2h n) else map_of n2h n)"
    using 2 d(2) s by (auto simp: update_conv')
  ultimately show ?case by simp
qed

definition membership_inv :: "'a list list \<Rightarrow> 'a membership \<Rightarrow> bool" where
  "membership_inv hs n2h \<longleftrightarrow> distinct (map fst n2h) \<and> membership_consistent hs n2h"

lemma membership_inv_step:
  assumes inv: "membership_inv hs n2h" and d: "distinct Ve"
    and a: "append_index (length hs) Ve n2h = Inr n2h'"
  shows "membership_inv (hs @ [Ve]) n2h'"
proof -
  have keys: "map fst n2h' = map fst n2h"
    and mo: "\<And>n. map_of n2h' n =
        (if n \<in> set Ve then map_option (\<lambda>l. l @ [length hs]) (map_of n2h n) else map_of n2h n)"
    using append_index_map_of [OF d a] by simp_all
  have dk: "distinct (map fst n2h)" "distinct (map fst n2h')"
    using inv keys by (simp_all add: membership_inv_def)
  have old: "\<And>n idxs. map_of n2h n = Some idxs \<Longrightarrow>
      distinct idxs \<and> (\<forall>i \<in> set idxs. i < length hs \<and> n \<in> set (hs ! i))"
    using inv unfolding membership_inv_def membership_consistent_iff
    by (auto dest: map_of_SomeD)
  have "\<And>n idxs'. (n, idxs') \<in> set n2h' \<Longrightarrow>
      distinct idxs' \<and> (\<forall>i \<in> set idxs'. i < length (hs @ [Ve]) \<and> n \<in> set ((hs @ [Ve]) ! i))"
  proof -
    fix n idxs' assume "(n, idxs') \<in> set n2h'"
    then have m: "map_of n2h' n = Some idxs'" using dk(2) by simp
    show "distinct idxs' \<and> (\<forall>i \<in> set idxs'. i < length (hs @ [Ve]) \<and> n \<in> set ((hs @ [Ve]) ! i))"
    proof (cases "n \<in> set Ve")
      case True
      then obtain idxs where i: "map_of n2h n = Some idxs" "idxs' = idxs @ [length hs]"
        using m mo [of n] by (cases "map_of n2h n") auto
      show ?thesis using old [OF i(1)] True unfolding i(2) by (auto simp: nth_append)
    next
      case False
      then have "map_of n2h n = Some idxs'" using m mo [of n] by simp
      from old [OF this] show ?thesis by (auto simp: nth_append)
    qed
  qed
  then show ?thesis
    unfolding membership_inv_def membership_consistent_iff using dk(2) by blast
qed

lemma fhs_round_membership:
  assumes "membership_inv hs n2h"
  shows "case fhs_round hash m_max (G, hs, n2h) of
           Continue (G', hs', n2h') \<Rightarrow> membership_inv hs' n2h'
         | Break (G', hs', n2h') \<Rightarrow> membership_inv hs' n2h'
         | Raise e \<Rightarrow> True"
proof (cases "py_max (\<lambda>n. (degree G n, - hash n)) (nodes G)")
  case (Inl e)
  then show ?thesis by (simp add: fhs_round_def)
next
  case (Inr node)
  define Ve where "Ve = remdups (bfs_collect_m G node m_max)"
  show ?thesis
  proof (cases "append_index (length hs) Ve n2h")
    case (Inl e)
    then show ?thesis using Inr assms by (simp add: fhs_round_def Let_def Ve_def [symmetric])
  next
    case ok: (Inr n2h')
    have "membership_inv (hs @ [Ve]) n2h'"
      by (rule membership_inv_step [OF assms _ ok]) (simp add: Ve_def)
    then show ?thesis using Inr ok assms by (simp add: fhs_round_def Let_def Ve_def [symmetric])
  qed
qed

lemma fhs_loop_membership:
  "membership_inv hs n2h \<Longrightarrow>
   fhs_loop fuel hash m_max (G, hs, n2h) = Some (Inr (G', hs', n2h')) \<Longrightarrow>
   membership_inv hs' n2h'"
proof (induction fuel arbitrary: G hs n2h)
  case 0
  then show ?case by (auto split: if_splits)
next
  case (Suc fuel)
  show ?case
  proof (cases "0 < number_of_edges G \<and> number_of_nodes G \<noteq> 0")
    case False
    then show ?thesis using Suc.prems by (auto split: if_splits)
  next
    case True
    show ?thesis
    proof (cases "fhs_round hash m_max (G, hs, n2h)")
      case (Continue st)
      obtain G2 hs2 n2 where st: "st = (G2, hs2, n2)" by (cases st)
      have "membership_inv hs2 n2"
        using fhs_round_membership [OF Suc.prems(1), of hash m_max G] Continue st by simp
      moreover have "fhs_loop fuel hash m_max (G2, hs2, n2) = Some (Inr (G', hs', n2h'))"
        using Suc.prems(2) True Continue st by simp
      ultimately show ?thesis by (rule Suc.IH)
    next
      case (Break st)
      then have "st = (G', hs', n2h')" using Suc.prems(2) True by simp
      then show ?thesis
        using fhs_round_membership [OF Suc.prems(1), of hash m_max G] Break by simp
    next
      case (Raise e)
      then show ?thesis using Suc.prems(2) True by simp
    qed
  qed
qed

lemma fhs_membership_consistent:
  assumes "distinct (nodes G)"
    and "create_fhs fuel hash G m_max use_edge_capacity = Some (Inr (hyperedges, n2h, caps))"
  shows "membership_consistent hyperedges n2h"
proof -
  let ?n = "map (\<lambda>n. (n, [])) (nodes G)"
  have i: "membership_inv [] ?n"
    using assms(1) by (simp add: membership_inv_def membership_consistent_iff comp_def)
  obtain G' where "fhs_loop fuel hash m_max (graph_copy G, [], ?n) = Some (Inr (G', hyperedges, n2h))"
    using assms(2)
    by (auto simp: create_fhs_def Let_def simp del: fhs_loop.simps split: option.splits sum.splits)
  from fhs_loop_membership [OF i this] show ?thesis by (simp add: membership_inv_def)
qed

subsection \<open>NCH keeps the membership-index invariant\<close>

lemma py_max_degree_view:
  assumes "0 < number_of_edges H" and "py_max snd (degree_view H) = Inr (node, deg)"
  shows "neighbors H node \<noteq> []"
proof -
  have "0 < sum_list (map snd (degree_view H))" using assms(1) by (simp add: number_of_edges_def)
  then obtain x where x: "x \<in> set (degree_view H)" "0 < snd x"
    using sum_list_pos_ex [of snd "degree_view H"] by blast
  have "snd x \<le> snd (node, deg)" using py_max_ge [OF assms(2) x(1)] .
  then have "0 < deg" using x(2) by simp
  moreover have "deg = degree H node"
    using py_max_in [OF assms(2)] by (auto simp: degree_view_def)
  ultimately show ?thesis by (auto simp: degree_def neighbors_def)
qed

lemma gvc_loop_has_neighbors:
  "wf_graph H \<Longrightarrow> \<forall>u. set (neighbors H u) \<subseteq> set (neighbors G u) \<Longrightarrow>
   \<forall>c \<in> set cover. neighbors G c \<noteq> [] \<Longrightarrow>
   gvc_loop max_nodes H cover = Inr cover' \<Longrightarrow> \<forall>c \<in> set cover'. neighbors G c \<noteq> []"
proof (induction max_nodes H cover rule: gvc_loop.induct)
  case (1 max_nodes H cover)
  show ?case
  proof (cases "number_of_edges H > 0")
    case False
    then have "cover' = cover" using "1.prems"(4) by (subst (asm) gvc_loop.simps) simp
    then show ?thesis using "1.prems"(3) by simp
  next
    case True
    then obtain b where b: "py_max snd (degree_view H) = Inr b"
      using py_max_Inr number_of_edges_pos_nodes by blast
    obtain node deg where nd: "b = (node, deg)" by (cases b)
    let ?c = "set_add node cover" and ?H = "remove_node node H"
    have "neighbors H node \<noteq> []" using py_max_degree_view [OF True] b nd by simp
    then have "neighbors G node \<noteq> []" using "1.prems"(2) by (metis set_empty subset_empty)
    then have c: "\<forall>c \<in> set ?c. neighbors G c \<noteq> []" using "1.prems"(3) by simp
    show ?thesis
    proof (cases "case max_nodes of None \<Rightarrow> False | Some k \<Rightarrow> k \<le> int (length ?c)")
      case stop: True
      then have "cover' = ?c"
        using "1.prems"(4) True b nd by (subst (asm) gvc_loop.simps) (simp add: Let_def)
      then show ?thesis using c by simp
    next
      case go: False
      have wf': "wf_graph ?H" using "1.prems"(1) by (rule wf_remove_node)
      have sub: "\<forall>u. set (neighbors ?H u) \<subseteq> set (neighbors G u)"
        using "1.prems"(2) by (auto simp: set_neighbors_remove_node [OF "1.prems"(1)] split: if_splits)
      have r: "gvc_loop max_nodes ?H ?c = Inr cover'"
        using "1.prems"(4) True b nd go by (subst (asm) gvc_loop.simps) (simp add: Let_def)
      show ?thesis
        using "1.IH" [OF True b nd [symmetric] refl refl go wf' sub c r] .
    qed
  qed
qed

lemma defaultdict_append_map_of:
  "distinct vs \<Longrightarrow> distinct (map fst n2h) \<Longrightarrow>
   distinct (map fst (foldl (\<lambda>m v. AList.update v
       ((case map_of m v of None \<Rightarrow> [] | Some idxs \<Rightarrow> idxs) @ [i]) m) n2h vs)) \<and>
   (\<forall>n. map_of (foldl (\<lambda>m v. AList.update v
       ((case map_of m v of None \<Rightarrow> [] | Some idxs \<Rightarrow> idxs) @ [i]) m) n2h vs) n =
        (if n \<in> set vs
         then Some ((case map_of n2h n of None \<Rightarrow> [] | Some idxs \<Rightarrow> idxs) @ [i])
         else map_of n2h n))"
proof (induction vs arbitrary: n2h)
  case Nil
  then show ?case by simp
next
  case (Cons v vs)
  let ?m = "AList.update v ((case map_of n2h v of None \<Rightarrow> [] | Some idxs \<Rightarrow> idxs) @ [i]) n2h"
  have d: "distinct vs" "v \<notin> set vs" using Cons.prems(1) by simp_all
  have dm: "distinct (map fst ?m)" using Cons.prems(2) by (rule distinct_update)
  from Cons.IH [OF d(1) dm] d(2) show ?case by (auto simp: update_conv')
qed

lemma nch_loop_membership:
  "membership_inv hs n2h \<Longrightarrow> \<forall>c \<in> set cs. neighbors G c \<noteq> [] \<Longrightarrow>
   nch_loop slot G (enumerate (length hs) cs) (hs, n2h) = (hs', n2h') \<Longrightarrow>
   membership_inv hs' n2h'"
proof (induction cs arbitrary: hs n2h)
  case Nil
  then show ?case by simp
next
  case (Cons c cs)
  let ?ne = "set_iter slot (neighbors G c)"
  let ?m = "foldl (\<lambda>m v. AList.update v
       ((case map_of m v of None \<Rightarrow> [] | Some idxs \<Rightarrow> idxs) @ [length hs]) m) n2h ?ne"
  have ne: "?ne \<noteq> []" using Cons.prems(2) by (metis list.set_intros(1) set_empty set_set_iter)
  have dn: "distinct ?ne" by (simp add: set_iter_def)
  have dk: "distinct (map fst n2h)" using Cons.prems(1) by (simp add: membership_inv_def)
  have old: "\<And>n idxs. map_of n2h n = Some idxs \<Longrightarrow>
      distinct idxs \<and> (\<forall>i \<in> set idxs. i < length hs \<and> n \<in> set (hs ! i))"
    using Cons.prems(1) unfolding membership_inv_def membership_consistent_iff
    by (auto dest: map_of_SomeD)
  have dm: "distinct (map fst ?m)"
    and mo: "\<And>n. map_of ?m n =
        (if n \<in> set ?ne
         then Some ((case map_of n2h n of None \<Rightarrow> [] | Some idxs \<Rightarrow> idxs) @ [length hs])
         else map_of n2h n)"
    using defaultdict_append_map_of [OF dn dk, of "length hs"] by simp_all
  have "\<And>n idxs'. (n, idxs') \<in> set ?m \<Longrightarrow>
      distinct idxs' \<and> (\<forall>i \<in> set idxs'. i < length (hs @ [?ne]) \<and> n \<in> set ((hs @ [?ne]) ! i))"
  proof -
    fix n idxs' assume "(n, idxs') \<in> set ?m"
    then have m: "map_of ?m n = Some idxs'" using dm by simp
    show "distinct idxs' \<and> (\<forall>i \<in> set idxs'. i < length (hs @ [?ne]) \<and> n \<in> set ((hs @ [?ne]) ! i))"
    proof (cases "n \<in> set ?ne")
      case True
      show ?thesis
      proof (cases "map_of n2h n")
        case None
        then have "idxs' = [length hs]" using m True unfolding mo by simp
        then show ?thesis using True by (simp add: nth_append)
      next
        case (Some idxs)
        then have "idxs' = idxs @ [length hs]" using m True unfolding mo by simp
        then show ?thesis using old [OF Some] True by (auto simp: nth_append)
      qed
    next
      case False
      then have "map_of n2h n = Some idxs'" using m unfolding mo by simp
      from old [OF this] show ?thesis by (auto simp: nth_append)
    qed
  qed
  then have inv: "membership_inv (hs @ [?ne]) ?m"
    unfolding membership_inv_def membership_consistent_iff using dm by blast
  have "nch_loop slot G (enumerate (length (hs @ [?ne])) cs) (hs @ [?ne], ?m) = (hs', n2h')"
    using Cons.prems(3) ne by (simp add: Let_def)
  from Cons.IH [OF inv _ this] Cons.prems(2) show ?case by simp
qed

lemma nch_membership_consistent:
  assumes "wf_graph G" and "create_nch slot G max_cover_size = Inr (hyperedges, n2h, caps)"
  shows "membership_consistent hyperedges n2h"
proof -
  obtain cover where g: "greedy_vertex_cover G max_cover_size = Inr cover"
    and l: "nch_loop slot G (enumerate 0 (sort cover)) ([], []) = (hyperedges, n2h)"
    using assms(2) by (auto simp: create_nch_def split: sum.splits prod.splits)
  have w: "wf_graph (graph_copy G)" using assms(1) by (rule graph_copy_props(1))
  have "\<forall>c \<in> set cover. neighbors G c \<noteq> []"
    using gvc_loop_has_neighbors [OF w _ _ g [unfolded greedy_vertex_cover_def]]
      graph_copy_props(3) [OF assms(1)] by simp
  then have c: "\<forall>c \<in> set (sort cover). neighbors G c \<noteq> []" by simp
  have i: "membership_inv [] []" by (simp add: membership_inv_def membership_consistent_iff)
  from nch_loop_membership [OF i c] l show ?thesis by (simp add: membership_inv_def)
qed

subsection \<open>The tie-break of the FHS seed\<close>

text \<open>
  Among the nodes of highest degree, the seed of an FHS round is one of lowest hash: the
  lowest identifier where the hash grows with the identifier, as it does for small
  non-negative integers.
\<close>

lemma fhs_seed_lowest_hash:
  fixes hash :: "'a \<Rightarrow> int"
  assumes "py_max (\<lambda>n. (degree G n, - hash n)) (nodes G) = Inr node" and "n \<in> set (nodes G)"
  shows "degree G n \<le> degree G node \<and> (degree G n = degree G node \<longrightarrow> hash node \<le> hash n)"
proof -
  have "(degree G n, - hash n) \<le> (degree G node, - hash node)"
    using py_max_ge [OF assms] .
  then show ?thesis by (auto simp: less_eq_prod_def)
qed

subsection \<open>The uniform split\<close>

lemma map_of_foldl_update_idx:
  "map_of (foldl (\<lambda>caps idx. AList.update (v, idx) x caps) caps idxs) k =
     (if fst k = v \<and> snd k \<in> set idxs then Some x else map_of caps k)"
  by (induction idxs arbitrary: caps) (auto simp: update_conv')

lemma map_of_split_step:
  "map_of (foldl (\<lambda>caps (v, hed_idxs).
              if hed_idxs = [] then caps
              else foldl (\<lambda>caps idx. AList.update (v, idx) (total_of v / real (length hed_idxs)) caps)
                     caps hed_idxs) caps n2h) (n, i) =
     (case map_of n2h n of
        Some idxs \<Rightarrow> if i \<in> set idxs then Some (total_of n / real (length idxs))
                     else map_of caps (n, i)
      | None \<Rightarrow> map_of caps (n, i))"
  if "distinct (map fst n2h)"
  using that
proof (induction n2h arbitrary: caps)
  case Nil
  then show ?case by simp
next
  case (Cons e n2h)
  obtain v idxs where e: "e = (v, idxs)" by (cases e)
  have d: "distinct (map fst n2h)" and v: "v \<notin> fst ` set n2h" using Cons.prems e by simp_all
  have vn: "map_of n2h v = None" using v by (simp add: map_of_eq_None_iff)
  let ?c = "if idxs = [] then caps
            else foldl (\<lambda>caps idx. AList.update (v, idx) (total_of v / real (length idxs)) caps)
                   caps idxs"
  have c: "map_of ?c (n, i) =
      (if n = v \<and> i \<in> set idxs then Some (total_of v / real (length idxs)) else map_of caps (n, i))"
    by (simp add: map_of_foldl_update_idx)
  show ?case
    unfolding e using Cons.IH [OF d, of ?c] c vn
    by (cases "n = v") (auto split: option.splits)
qed

lemma split_evenly_map_of:
  assumes "distinct (map fst n2h)"
  shows "map_of (split_evenly total_of n2h) (n, i) =
           (case map_of n2h n of
              Some idxs \<Rightarrow> if i \<in> set idxs then Some (total_of n / real (length idxs)) else None
            | None \<Rightarrow> None)"
  unfolding split_evenly_def map_of_split_step [OF assms] by (simp split: option.splits)

lemma split_evenly_sum:
  assumes "distinct (map fst n2h)" and "map_of n2h n = Some idxs" and "idxs \<noteq> []"
  shows "(\<forall>i \<in> set idxs. map_of (split_evenly total_of n2h) (n, i) =
            Some (total_of n / real (length idxs))) \<and>
         sum_list (map (\<lambda>i. the (map_of (split_evenly total_of n2h) (n, i))) idxs) = total_of n"
proof -
  have e: "\<forall>i \<in> set idxs. map_of (split_evenly total_of n2h) (n, i) =
      Some (total_of n / real (length idxs))"
    by (simp add: split_evenly_map_of [OF assms(1)] assms(2))
  then have "map (\<lambda>i. the (map_of (split_evenly total_of n2h) (n, i))) idxs =
      map (\<lambda>i. total_of n / real (length idxs)) idxs"
    by simp
  then have "sum_list (map (\<lambda>i. the (map_of (split_evenly total_of n2h) (n, i))) idxs) =
      real (length idxs) * (total_of n / real (length idxs))"
    by (simp add: sum_list_replicate map_replicate_const)
  then show ?thesis using e assms(3) by simp
qed

text \<open>
  The redistribution of make\_fhs\_edges.py: a node with \<open>k \<ge> 1\<close> memberships and the
  total \<open>T\<close> gets \<open>T/k\<close> at each membership, with 1 in the place of a total that is not
  positive, and the allocations of the node add up to that total.
\<close>

lemma main_node_caps_uniform:
  assumes "distinct (map fst n2h)" and "map_of n2h n = Some idxs" and "idxs \<noteq> []"
    and "T = (case compute_node_totals edges_df n of None \<Rightarrow> 0 | Some x \<Rightarrow> x)"
  shows "(\<forall>i \<in> set idxs. map_of (main_node_caps edges_df n2h) (n, i) =
            Some ((if T \<le> 0 then 1 else T) / real (length idxs))) \<and>
         sum_list (map (\<lambda>i. the (map_of (main_node_caps edges_df n2h) (n, i))) idxs) =
           (if T \<le> 0 then 1 else T)"
  using split_evenly_sum [OF assms(1,2,3)] assms(4)
  by (simp add: main_node_caps_def Let_def)

end
